theory Spec2Isabelle
  imports Complex_Main "HOL-Library.Sublist" "HOL-Library.Multiset"
begin

section \<open>Strings and numbers of the source language\<close>

text \<open>
  A string of the source is a sequence of UTF-16 code units. The model keeps the
  code units below 256 (the Latin-1 range), one \<^typ>\<open>char\<close> each; every literal of
  the program is ASCII.

  A number of the source is a binary64 double. The model keeps the finite doubles, as
  the reals they denote. Comparisons of doubles and \<^verbatim>\<open>Math.abs\<close> are exact; a sum or a
  difference is the exact result rounded to the nearest double, ties to even
  (\<open>fadd\<close>, \<open>fsub\<close> below). A result beyond the largest double stands for the
  infinity of its sign, which the comparisons of the program treat like it.
\<close>

abbreviation newline :: char where
  "newline \<equiv> CHR 0x0A"

abbreviation dquote :: char where
  "dquote \<equiv> CHR 0x22"

text \<open>Rounding of a real to the nearest integer, ties to the even one.\<close>

definition roundTiesToEven :: "real \<Rightarrow> int" where
  "roundTiesToEven x =
     (let f = \<lfloor>x\<rfloor>; d = x - of_int f in
      if d < 1 / 2 then f else if 1 / 2 < d then f + 1 else if even f then f else f + 1)"

text \<open>
  The exponent of the last place of the doubles around \<open>x\<close>: 52 binary places below
  the leading bit of \<open>x\<close>, and not below that of the subnormal doubles.
\<close>

definition exponent64 :: "real \<Rightarrow> int" where
  "exponent64 x = max (\<lfloor>log 2 \<bar>x\<bar>\<rfloor> - 52) (- 1074)"

text \<open>The double nearest to a real, ties to the even significand.\<close>

definition round64 :: "real \<Rightarrow> real" where
  "round64 x =
     (if x = 0 then 0
      else of_int (roundTiesToEven (x / 2 powi exponent64 x)) * 2 powi exponent64 x)"

text \<open>The operators \<open>+\<close> and \<open>-\<close> of the source on numbers.\<close>

definition fadd :: "real \<Rightarrow> real \<Rightarrow> real" where
  "fadd x y = round64 (x + y)"

definition fsub :: "real \<Rightarrow> real \<Rightarrow> real" where
  "fsub x y = round64 (x - y)"

text \<open>\<^verbatim>\<open>String.prototype.startsWith\<close> and \<^verbatim>\<open>String.prototype.endsWith\<close>.\<close>

definition startsWith :: "string \<Rightarrow> string \<Rightarrow> bool" where
  "startsWith s p = prefix p s"

definition endsWith :: "string \<Rightarrow> string \<Rightarrow> bool" where
  "endsWith s p = suffix p s"

text \<open>
  White space as \<^verbatim>\<open>String.prototype.trim\<close> sees it, among the code units below
  256: TAB, LF, VT, FF, CR, SPACE and NO-BREAK SPACE.
\<close>

definition isWhiteSpace :: "char \<Rightarrow> bool" where
  "isWhiteSpace c = (c \<in> {CHR 0x09, CHR 0x0A, CHR 0x0B, CHR 0x0C, CHR 0x0D, CHR 0x20, CHR 0xA0})"

definition trim :: "string \<Rightarrow> string" where
  "trim s = rev (dropWhile isWhiteSpace (rev (dropWhile isWhiteSpace s)))"

text \<open>
  \<^verbatim>\<open>String.prototype.toLowerCase\<close> on the code units below 256: the letters A-Z and
  the Latin-1 capitals (all of 0xC0-0xDE but the multiplication sign 0xD7) move up
  by 32, everything else stays.
\<close>

definition lowerChar :: "char \<Rightarrow> char" where
  "lowerChar c =
     (let n = of_char c :: nat in
      if (65 \<le> n \<and> n \<le> 90) \<or> (192 \<le> n \<and> n \<le> 222 \<and> n \<noteq> 215)
      then char_of (n + 32) else c)"

definition toLowerCase :: "string \<Rightarrow> string" where
  "toLowerCase s = map lowerChar s"

text \<open>\<^verbatim>\<open>Array.prototype.join\<close> on an array of strings.\<close>

fun join :: "string \<Rightarrow> string list \<Rightarrow> string" where
  "join sep [] = []"
| "join sep [x] = x"
| "join sep (x # y # ys) = x @ sep @ join sep (y # ys)"

text \<open>The decimal numeral a template literal prints for a non-negative integer.\<close>

fun digitChar :: "nat \<Rightarrow> char" where
  "digitChar n = char_of (48 + n)"

fun numberToString :: "nat \<Rightarrow> string" where
  "numberToString n =
     (if n < 10 then [digitChar n] else numberToString (n div 10) @ [digitChar (n mod 10)])"

declare numberToString.simps [simp del]

text \<open>
  \<^verbatim>\<open>Array.prototype.sort\<close> with a comparator: a stable sort, here by insertion. An
  element goes in front of the first element it does not compare greater than, so
  elements that compare equal keep their order. The sort reads only the sign of the
  comparator's result; for the two comparators of the program, differences of two
  doubles, the sign of the rounded difference is that of the exact one, which the
  model takes.
\<close>

fun insertBy :: "('a \<Rightarrow> 'a \<Rightarrow> real) \<Rightarrow> 'a \<Rightarrow> 'a list \<Rightarrow> 'a list" where
  "insertBy cmp x [] = [x]"
| "insertBy cmp x (y # ys) = (if cmp x y \<le> 0 then x # y # ys else y # insertBy cmp x ys)"

definition sortBy :: "('a \<Rightarrow> 'a \<Rightarrow> real) \<Rightarrow> 'a list \<Rightarrow> 'a list" where
  "sortBy cmp xs = foldr (insertBy cmp) xs []"

section \<open>Line Reconstructor (the page loop body of extractPdfText)\<close>

text \<open>
  A text item of a page as the PDF decoder hands it over: \<open>str\<close>, the entries 4 and 5
  of \<open>transform\<close> (horizontal and vertical origin) and \<open>width\<close>, which may be absent.
\<close>

record item =
  str :: string
  transform4 :: real
  transform5 :: real
  width :: "real option"

text \<open>
  \<^verbatim>\<open>lines: Map<number, any[]>\<close>. A Map iterates its keys in insertion order, so it is
  an association list in that order.
\<close>

type_synonym lines = "(real \<times> item list) list"

definition keys :: "lines \<Rightarrow> real list" where
  "keys ls = map fst ls"

text \<open>\<^verbatim>\<open>lines.get(y)\<close>.\<close>

definition get :: "lines \<Rightarrow> real \<Rightarrow> item list option" where
  "get ls y = map_of ls y"

text \<open>
  \<^verbatim>\<open>lines.set(y, v)\<close>: the value of an existing key is replaced where it stands, a
  new key goes to the end.
\<close>

fun set_entry :: "real \<Rightarrow> item list \<Rightarrow> lines \<Rightarrow> lines" where
  "set_entry y v [] = [(y, v)]"
| "set_entry y v ((k, w) # ls) = (if k = y then (k, v) # ls else (k, w) # set_entry y v ls)"

text \<open>
  \<^verbatim>\<open>lines.get(foundKey)?.push(item)\<close>: the array stored under the key grows in
  place; nothing happens when the key is absent.
\<close>

fun push_entry :: "real \<Rightarrow> item \<Rightarrow> lines \<Rightarrow> lines" where
  "push_entry y it [] = []"
| "push_entry y it ((k, w) # ls) =
     (if k = y then (k, w @ [it]) # ls else (k, w) # push_entry y it ls)"

text \<open>
  The search for \<open>foundKey\<close>: the keys in insertion order, leaving at the first one
  for which \<^verbatim>\<open>Math.abs(lineY - y) < 5\<close>, the difference being the rounded one.
\<close>

fun foundKey :: "real \<Rightarrow> real list \<Rightarrow> real option" where
  "foundKey y [] = None"
| "foundKey y (lineY # rest) = (if \<bar>fsub lineY y\<bar> < 5 then Some lineY else foundKey y rest)"

text \<open>The callback of \<^verbatim>\<open>items.forEach\<close>, on the map so far.\<close>

definition groupItem :: "lines \<Rightarrow> item \<Rightarrow> lines" where
  "groupItem ls it =
     (if str it = [] \<or> trim (str it) = [] then ls
      else
        let y = transform5 it in
        case foundKey y (keys ls) of
          Some k \<Rightarrow> push_entry k it ls
        | None \<Rightarrow> set_entry y [it] ls)"

definition groupItems :: "item list \<Rightarrow> lines" where
  "groupItems items = foldl groupItem [] items"

text \<open>\<^verbatim>\<open>Array.from(lines.keys()).sort((a, b) => b - a)\<close>.\<close>

definition sortedY :: "lines \<Rightarrow> real list" where
  "sortedY ls = sortBy (\<lambda>a b. b - a) (keys ls)"

text \<open>
  \<^verbatim>\<open>lines.get(y) || []\<close>, sorted by
  \<^verbatim>\<open>(a, b) => a.transform[4] - b.transform[4]\<close>.
\<close>

definition lineItems :: "lines \<Rightarrow> real \<Rightarrow> item list" where
  "lineItems ls y =
     sortBy (\<lambda>a b. transform4 a - transform4 b) (case get ls y of None \<Rightarrow> [] | Some v \<Rightarrow> v)"

text \<open>\<^verbatim>\<open>next.transform[4] - (current.transform[4] + (current.width || 0))\<close>.\<close>

definition gap :: "item \<Rightarrow> item \<Rightarrow> real" where
  "gap current nxt =
     fsub (transform4 nxt)
       (fadd (transform4 current) (case width current of None \<Rightarrow> 0 | Some w \<Rightarrow> w))"

text \<open>What the loop over \<open>j\<close> appends after \<open>current.str\<close> when there is a next item.\<close>

definition spacing :: "item \<Rightarrow> item \<Rightarrow> string" where
  "spacing current nxt =
     (if gap current nxt > 20 then ''    '' else if gap current nxt > 2 then '' '' else [])"

text \<open>The loop over \<open>j\<close> that builds \<open>lineStr\<close>.\<close>

fun lineStr :: "item list \<Rightarrow> string" where
  "lineStr [] = []"
| "lineStr [current] = str current"
| "lineStr (current # nxt # rest) = str current @ spacing current nxt @ lineStr (nxt # rest)"

text \<open>\<^verbatim>\<open>sortedY.forEach\<close>, which appends every line and a newline to \<open>pageText\<close>.\<close>

definition pageText :: "item list \<Rightarrow> string" where
  "pageText items =
     (let ls = groupItems items in
      foldl (\<lambda>text y. text @ lineStr (lineItems ls y) @ [newline]) [] (sortedY ls))"

section \<open>PDF Extractor (extractPdfText)\<close>

text \<open>An exception or a rejected promise, with its \<open>message\<close>.\<close>

datatype error = Error string

fun message :: "error \<Rightarrow> string" where
  "message (Error m) = m"

text \<open>
  What the PDF decoder yields, an external collaborator of the program.
  A page is what \<^verbatim>\<open>pdf.getPage(i)\<close> followed by \<^verbatim>\<open>page.getTextContent()\<close> gives:
  the items, or the error one of the two rejects with. A buffer is identified with
  what \<^verbatim>\<open>pdfjs.getDocument\<close> makes of it: the pages (\<open>numPages\<close> is their number), or
  the error it rejects with.
\<close>

type_synonym page = "error + item list"

datatype buffer = Buffer (getDocument: "error + page list")

text \<open>
  What the browser reports of a selected file (\<open>name\<close>, \<open>type\<close>, \<open>size\<close> of the File
  object) and what the collaborators yield on it:
  \<^item> \<open>readAsDataURL\<close>: the data URL the FileReader loads, \<open>None\<close> when its load event
    never fires (the promise of the source has no other way to settle);
  \<^item> \<open>arrayBuffer\<close>: the bytes \<^verbatim>\<open>file.arrayBuffer()\<close> resolves with, or its error;
  \<^item> \<open>loadAsync\<close>: the \<open>files\<close> object of the archive \<^verbatim>\<open>JSZip.loadAsync(file)\<close> resolves
    with, or its error. The object is the list of its entries in key order, each
    with what \<^verbatim>\<open>async("string")\<close> gives on it. Entry names that are array indices
    would be enumerated first; the program only enumerates names that start with
    \<^verbatim>\<open>ppt/slides/slide\<close>, which come in insertion order.
\<close>

type_synonym zip_files = "(string \<times> (error + string)) list"

record File =
  file_name :: string
  file_type :: string
  file_size :: nat
  readAsDataURL :: "string option"
  arrayBuffer :: "error + buffer"
  loadAsync :: "error + zip_files"

text \<open>
  The loop \<^verbatim>\<open>for (let i = 1; i <= pdf.numPages; i++)\<close>; an error of a page leaves it,
  as the exception does.
\<close>

function pagesLoop :: "page list \<Rightarrow> nat \<Rightarrow> string \<Rightarrow> error + string" where
  "pagesLoop pages i fullText =
     (if i \<le> length pages then
        (case pages ! (i - 1) of
           Inl e \<Rightarrow> Inl e
         | Inr items \<Rightarrow>
             pagesLoop pages (i + 1)
               (fullText @ ''--- Page '' @ numberToString i @ '' ---'' @ [newline]
                  @ pageText items @ [newline, newline]))
      else Inr fullText)"
  by pat_completeness auto
termination
  by (relation "measure (\<lambda>(pages, i, fullText). Suc (length pages) - i)") auto

declare pagesLoop.simps [simp del]

definition extractPdfText :: "File \<Rightarrow> error + string" where
  "extractPdfText file =
     (case arrayBuffer file of
        Inl e \<Rightarrow> Inl e
      | Inr buf \<Rightarrow>
          (case (case getDocument buf of Inl e \<Rightarrow> Inl e | Inr pages \<Rightarrow> pagesLoop pages 1 []) of
             Inl err \<Rightarrow>
               Inl (Error ''Failed to extract text from PDF. The file might be corrupted or complex.'')
           | Inr fullText \<Rightarrow> Inr fullText))"

section \<open>Presentation Extractor (extractPptxText)\<close>

definition isDigit :: "char \<Rightarrow> bool" where
  "isDigit c = (48 \<le> (of_char c :: nat) \<and> (of_char c :: nat) \<le> 57)"

text \<open>
  \<^verbatim>\<open>/slide(\d+)\.xml/\<close> tried at the start of a string: the digits of group 1. The
  digits are taken greedily; giving one back never helps, since a digit is not a dot.
\<close>

definition slideNumAt :: "string \<Rightarrow> string option" where
  "slideNumAt s =
     (if startsWith s ''slide'' then
        (let ds = takeWhile isDigit (drop 5 s) in
         if ds \<noteq> [] \<and> startsWith (drop (5 + length ds) s) ''.xml'' then Some ds else None)
      else None)"

text \<open>\<^verbatim>\<open>slideFile.match(/slide(\d+)\.xml/)\<close>: the leftmost match.\<close>

fun slideNumMatch :: "string \<Rightarrow> string option" where
  "slideNumMatch [] = None"
| "slideNumMatch (c # cs) =
     (case slideNumAt (c # cs) of Some ds \<Rightarrow> Some ds | None \<Rightarrow> slideNumMatch cs)"

definition slideNumOf :: "string \<Rightarrow> string" where
  "slideNumOf slideFile = (case slideNumMatch slideFile of Some ds \<Rightarrow> ds | None \<Rightarrow> ''??'')"

text \<open>
  \<^verbatim>\<open>/<a:t>([^<]*)<\/a:t>/\<close> tried at the start of a string: the matched text and what
  follows it. The run's text is taken greedily up to the next \<open><\<close>.
\<close>

definition runAt :: "string \<Rightarrow> (string \<times> string) option" where
  "runAt s =
     (if startsWith s ''<a:t>'' then
        (let body = takeWhile (\<lambda>c. c \<noteq> CHR ''<'') (drop 5 s);
             rest = drop (5 + length body) s
         in if startsWith rest ''</a:t>'' then Some (''<a:t>'' @ body @ ''</a:t>'', drop 6 rest)
            else None)
      else None)"

text \<open>
  \<^verbatim>\<open>content.match(/<a:t>([^<]*)<\/a:t>/g)\<close>: all matches from left to right, each
  search starting where the last match ended. The empty list stands for \<open>null\<close>.
\<close>

function matchRuns :: "string \<Rightarrow> string list" where
  "matchRuns [] = []"
| "matchRuns (c # cs) =
     (case runAt (c # cs) of Some (m, rest) \<Rightarrow> m # matchRuns rest | None \<Rightarrow> matchRuns cs)"
  by pat_completeness auto
termination
  by (relation "measure length") (auto simp: runAt_def Let_def split: if_splits)

text \<open>\<^verbatim>\<open>m.replace(/<\/?a:t>/g, "")\<close>.\<close>

function stripTags :: "string \<Rightarrow> string" where
  "stripTags [] = []"
| "stripTags (c # cs) =
     (if startsWith (c # cs) ''<a:t>'' then stripTags (drop 5 (c # cs))
      else if startsWith (c # cs) ''</a:t>'' then stripTags (drop 6 (c # cs))
      else c # stripTags cs)"
  by pat_completeness auto
termination
  by (relation "measure length") auto

text \<open>
  \<^verbatim>\<open>Object.keys(zip.files).filter(name => name.startsWith("ppt/slides/slide") &&
  name.endsWith(".xml"))\<close>.
\<close>

definition slideFiles :: "zip_files \<Rightarrow> string list" where
  "slideFiles z =
     filter (\<lambda>name. startsWith name ''ppt/slides/slide'' \<and> endsWith name ''.xml'') (map fst z)"

text \<open>
  \<^verbatim>\<open>zip.files[slideFile].async("string")\<close>; on a name that is no entry the property
  read of \<open>undefined\<close> throws.
\<close>

definition readEntry :: "zip_files \<Rightarrow> string \<Rightarrow> error + string" where
  "readEntry z entry =
     (case map_of z entry of None \<Rightarrow> Inl (Error ''TypeError'') | Some content \<Rightarrow> content)"

text \<open>The body of \<^verbatim>\<open>for (const slideFile of slideFiles)\<close>, on \<open>fullText\<close> so far.\<close>

definition slideStep :: "zip_files \<Rightarrow> string \<Rightarrow> string \<Rightarrow> error + string" where
  "slideStep z fullText slideFile =
     (let slideNum = slideNumOf slideFile in
      case readEntry z slideFile of
        Inl e \<Rightarrow> Inl e
      | Inr content \<Rightarrow>
          (let matches = matchRuns content;
               fullText1 =
                 (if matches \<noteq> [] then
                    fullText @ ''--- Slide '' @ slideNum @ '' ---'' @ [newline]
                      @ join '' '' (map stripTags matches) @ [newline]
                  else fullText);
               notesFile = ''ppt/notesSlides/notesSlide'' @ slideNum @ ''.xml''
           in case map_of z notesFile of
                None \<Rightarrow> Inr fullText1
              | Some entry \<Rightarrow>
                  (case entry of
                     Inl e \<Rightarrow> Inl e
                   | Inr notesContent \<Rightarrow>
                       (let notesMatches = matchRuns notesContent in
                        if notesMatches \<noteq> [] then
                          Inr (fullText1 @ ''[Slide '' @ slideNum @ '' Notes: ''
                                 @ join '' '' (map stripTags notesMatches) @ '']'' @ [newline])
                        else Inr fullText1))))"

fun slidesLoop :: "zip_files \<Rightarrow> string list \<Rightarrow> string \<Rightarrow> error + string" where
  "slidesLoop z [] fullText = Inr fullText"
| "slidesLoop z (slideFile # rest) fullText =
     (case slideStep z fullText slideFile of
        Inl e \<Rightarrow> Inl e
      | Inr fullText' \<Rightarrow> slidesLoop z rest fullText')"

definition extractPptxText :: "File \<Rightarrow> error + string" where
  "extractPptxText file =
     (case loadAsync file of
        Inl e \<Rightarrow> Inl e
      | Inr z \<Rightarrow> slidesLoop z (slideFiles z) [])"

section \<open>Ingestion Coordinator (handleFileChange)\<close>

definition MAX_FILE_SIZE :: nat where
  "MAX_FILE_SIZE = 50 * 1024 * 1024"

record UploadedFile =
  name :: string
  type :: string
  data :: string
  preview :: "string option"

text \<open>The two pieces of component state the handler writes.\<close>

record app =
  files :: "UploadedFile list"
  error :: "string option"

definition setError :: "string option \<Rightarrow> app \<Rightarrow> app" where
  "setError e a = a\<lparr>error := e\<rparr>"

text \<open>
  The body of \<^verbatim>\<open>for (const file of selectedFiles)\<close>, on the local array \<open>newFiles\<close>
  and the component state. \<open>None\<close>: the handler waits for ever for the data URL.
\<close>

definition fileStep :: "File \<Rightarrow> UploadedFile list \<times> app \<Rightarrow> (UploadedFile list \<times> app) option" where
  "fileStep file s =
     (case s of (newFiles, a) \<Rightarrow>
        if file_size file > MAX_FILE_SIZE then
          Some (newFiles,
            setError (Some (''File '' @ [dquote] @ file_name file @ [dquote]
                              @ '' exceeds the 50MB limit.'')) a)
        else if startsWith (file_type file) ''image/'' then
          (case readAsDataURL file of
             None \<Rightarrow> None
           | Some base64 \<Rightarrow>
               Some (newFiles @ [\<lparr>name = file_name file, type = file_type file,
                                  data = base64, preview = Some base64\<rparr>], a))
        else if endsWith (toLowerCase (file_name file)) ''.pdf''
                \<or> file_type file = ''application/pdf'' then
          (case extractPdfText file of
             Inr text \<Rightarrow>
               Some (newFiles @ [\<lparr>name = file_name file, type = ''application/pdf'',
                                  data = text, preview = None\<rparr>], a)
           | Inl err \<Rightarrow>
               Some (newFiles,
                 setError (Some (if message err \<noteq> [] then message err
                                 else ''Failed to parse PDF file.'')) a))
        else if endsWith (toLowerCase (file_name file)) ''.pptx'' then
          (case extractPptxText file of
             Inr text \<Rightarrow>
               Some (newFiles @ [\<lparr>name = file_name file,
                 type = ''application/vnd.openxmlformats-officedocument.presentationml.presentation'',
                 data = text, preview = None\<rparr>], a)
           | Inl err \<Rightarrow> Some (newFiles, setError (Some ''Failed to parse PPTX file.'') a))
        else Some (newFiles, setError (Some (''Unsupported file type: '' @ file_name file)) a))"

fun filesLoop :: "File list \<Rightarrow> UploadedFile list \<times> app \<Rightarrow> (UploadedFile list \<times> app) option" where
  "filesLoop [] s = Some s"
| "filesLoop (file # rest) s =
     (case fileStep file s of None \<Rightarrow> None | Some s' \<Rightarrow> filesLoop rest s')"

text \<open>
  The handler on the files of the change event: \<open>setError(null)\<close>, the loop, then
  \<^verbatim>\<open>setFiles(prev => [...prev, ...newFiles])\<close>.
\<close>

definition handleFileChange :: "app \<Rightarrow> File list \<Rightarrow> app option" where
  "handleFileChange a selectedFiles =
     (case filesLoop selectedFiles ([], setError None a) of
        None \<Rightarrow> None
      | Some (newFiles, a') \<Rightarrow> Some (a'\<lparr>files := files a' @ newFiles\<rparr>))"

section \<open>Auxiliary notions for the statements and proofs\<close>

text \<open>
  The invariant of the line map: every group is keyed by the vertical origin of its
  first item, and every member is a kept item that passed the tolerance test against
  that key.
\<close>

definition group_ok :: "real \<times> item list \<Rightarrow> bool" where
  "group_ok e =
     (case e of (k, g) \<Rightarrow>
        g \<noteq> [] \<and> transform5 (hd g) = k
        \<and> (\<forall>i \<in> set g. \<bar>fsub k (transform5 i)\<bar> < 5 \<and> trim (str i) \<noteq> []))"

text \<open>The text one page adds to \<open>fullText\<close>.\<close>

definition pageBlock :: "nat \<Rightarrow> item list \<Rightarrow> string" where
  "pageBlock i items =
     ''--- Page '' @ numberToString i @ '' ---'' @ [newline] @ pageText items @ [newline, newline]"

text \<open>The text one slide entry adds to \<open>fullText\<close> (nothing when its step fails).\<close>

definition slideBlock :: "zip_files \<Rightarrow> string \<Rightarrow> string" where
  "slideBlock z slideFile = (case slideStep z [] slideFile of Inl e \<Rightarrow> [] | Inr b \<Rightarrow> b)"

text \<open>
  What the step of the handler does with one file on its own, from no records and no
  message: the records it pushes and the message it sets. \<open>None\<close>: the handler waits
  for ever.
\<close>

definition fileAlone :: "File \<Rightarrow> (UploadedFile list \<times> string option) option" where
  "fileAlone file =
     map_option (\<lambda>(newFiles, a). (newFiles, error a))
       (fileStep file ([], \<lparr>files = [], error = None\<rparr>))"



text \<open>The invariant of a record with respect to the files of its batch.\<close>

definition record_ok :: "File list \<Rightarrow> UploadedFile \<Rightarrow> bool" where
  "record_ok fs u =
     ((preview u \<noteq> None \<longleftrightarrow> startsWith (type u) ''image/'') \<and>
      (startsWith (type u) ''image/'' \<longrightarrow>
         preview u = Some (data u) \<and>
         (\<exists>f \<in> set fs. readAsDataURL f = Some (data u)
                         \<and> name u = file_name f \<and> type u = file_type f)))"

subsection \<open>Sample inputs\<close>

text \<open>An item with a width.\<close>

definition fragment :: "string \<Rightarrow> real \<Rightarrow> real \<Rightarrow> real \<Rightarrow> item" where
  "fragment s x y w = \<lparr>str = s, transform4 = x, transform5 = y, width = Some w\<rparr>"

text \<open>A file none of the collaborators can read; the samples override what they need.\<close>

definition sampleFile :: "string \<Rightarrow> string \<Rightarrow> nat \<Rightarrow> File" where
  "sampleFile n t sz =
     \<lparr>file_name = n, file_type = t, file_size = sz, readAsDataURL = None,
      arrayBuffer = Inl (Error ''The file could not be read''),
      loadAsync = Inl (Error ''Not a zip file'')\<rparr>"

text \<open>A PDF file with the given pages.\<close>

definition samplePdf :: "string \<Rightarrow> string \<Rightarrow> page list \<Rightarrow> File" where
  "samplePdf n t pages = (sampleFile n t 1000)\<lparr>arrayBuffer := Inr (Buffer (Inr pages))\<rparr>"

text \<open>A presentation with the given archive entries.\<close>

definition samplePptx :: "string \<Rightarrow> string \<Rightarrow> zip_files \<Rightarrow> File" where
  "samplePptx n t z = (sampleFile n t 1000)\<lparr>loadAsync := Inr z\<rparr>"

text \<open>An image file of the given size with its data URL.\<close>

definition sampleImage :: "string \<Rightarrow> string \<Rightarrow> nat \<Rightarrow> string \<Rightarrow> File" where
  "sampleImage n t sz url = (sampleFile n t sz)\<lparr>readAsDataURL := Some url\<rparr>"

text \<open>The component state before any upload.\<close>

definition emptyApp :: app where
  "emptyApp = \<lparr>files = [], error = None\<rparr>"

section \<open>Rounding to the nearest double\<close>

lemma roundTiesToEven_of_int: "roundTiesToEven (of_int k) = k"
  by (simp add: roundTiesToEven_def)

text \<open>Between two powers of two the exponent of the last place is known.\<close>

lemma exponent64_binade:
  assumes "2 powi E \<le> \<bar>x\<bar>" "\<bar>x\<bar> < 2 powi (E + 1)"
  shows "exponent64 x = max (E - 52) (- 1074)"
proof -
  have "(0::real) < 2 powi E" by (simp add: zero_less_power_int)
  then have pos: "0 < \<bar>x\<bar>" using assms(1) by linarith
  have a: "2 powr real_of_int E = (2::real) powi E"
    by (rule powr_real_of_int') simp_all
  have b: "2 powr (real_of_int E + 1) = (2::real) powi (E + 1)"
    using powr_real_of_int' [of "2::real" "E + 1"] by simp
  have "2 powr real_of_int E \<le> \<bar>x\<bar> \<and> \<bar>x\<bar> < 2 powr (real_of_int E + 1)"
    unfolding a b using assms by blast
  then have "\<lfloor>log 2 \<bar>x\<bar>\<rfloor> = E"
    using floor_log_eq_powr_iff [of "\<bar>x\<bar>" 2 E] pos by simp
  then show ?thesis by (simp add: exponent64_def)
qed

lemma round64_binade:
  assumes "2 powi E \<le> \<bar>x\<bar>" "\<bar>x\<bar> < 2 powi (E + 1)"
  shows "round64 x =
     of_int (roundTiesToEven (x / 2 powi max (E - 52) (- 1074))) * 2 powi max (E - 52) (- 1074)"
proof -
  have "(0::real) < 2 powi E" by (simp add: zero_less_power_int)
  then have "0 < \<bar>x\<bar>" using assms(1) by linarith
  then have "x \<noteq> 0" by auto
  then show ?thesis by (simp add: round64_def exponent64_binade [OF assms])
qed

lemma powi_neg_numeral: "(2::real) powi (- numeral k) = 1 / 2 ^ numeral k"
  by (simp add: power_int_minus_divide)

lemma scaled_int:
  assumes "e \<le> 0"
  shows "of_int (roundTiesToEven (of_int n / 2 powi e)) * 2 powi e = (of_int n :: real)"
proof -
  have "(2::real) powi e = inverse (2 ^ nat (- e))"
    using assms by (simp add: power_int_def power_one_over inverse_eq_divide)
  then have p: "(2::real) powi e = 1 / of_int (2 ^ nat (- e))" by (simp add: inverse_eq_divide)
  have "of_int n / (2::real) powi e = of_int (n * 2 ^ nat (- e))" unfolding p by simp
  then have "roundTiesToEven (of_int n / 2 powi e) = n * 2 ^ nat (- e)"
    by (simp only: roundTiesToEven_of_int)
  then show ?thesis unfolding p by simp
qed

lemma exponent64_of_int_le:
  assumes "\<bar>n\<bar> < 2 ^ 53" "n \<noteq> 0"
  shows "exponent64 (of_int n) \<le> 0"
proof -
  have pos: "0 < \<bar>real_of_int n\<bar>" using assms(2) by simp
  have "\<bar>real_of_int n\<bar> < 2 ^ 53" using assms(1)
    by (metis of_int_abs of_int_less_iff of_int_numeral of_int_power)
  then have "\<bar>real_of_int n\<bar> < 2 powr 53" by simp
  then have "log 2 \<bar>real_of_int n\<bar> < 53" using pos by (simp add: log_less_iff)
  then have "\<lfloor>log 2 \<bar>real_of_int n\<bar>\<rfloor> < 53" by (simp add: floor_less_iff)
  then show ?thesis by (simp add: exponent64_def)
qed

text \<open>The integers below \<open>2 ^ 53\<close> in magnitude are doubles: rounding leaves them.\<close>

lemma round64_of_int: "\<bar>n\<bar> < 2 ^ 53 \<Longrightarrow> round64 (of_int n) = of_int n"
proof (cases "n = 0")
  case True
  then show ?thesis by (simp add: round64_def)
next
  case False
  assume "\<bar>n\<bar> < 2 ^ 53"
  then have "exponent64 (of_int n) \<le> 0" using False by (rule exponent64_of_int_le)
  then show ?thesis using False scaled_int [of "exponent64 (of_int n)" n]
    by (simp add: round64_def)
qed

lemma round64_numeral: "(numeral k :: int) < 2 ^ 53 \<Longrightarrow> round64 (numeral k) = numeral k"
  using round64_of_int [of "numeral k"] by simp

lemma round64_neg_numeral:
  "(numeral k :: int) < 2 ^ 53 \<Longrightarrow> round64 (- numeral k) = - numeral k"
  using round64_of_int [of "- numeral k"] by simp

lemma round64_0: "round64 0 = 0"
  by (simp add: round64_def)

lemma round64_1: "round64 1 = 1"
  using round64_of_int [of 1] by simp

lemmas round64_int = round64_numeral round64_neg_numeral round64_0 round64_1 fadd_def fsub_def

lemma fsub_self: "fsub y y = 0"
  by (simp add: fsub_def round64_0)

section \<open>Sorting with a comparator that is a difference of keys\<close>

lemma insertBy_key: "insertBy (\<lambda>a b. f a - f b) x ys = insort_key f x ys"
  by (induction ys) auto

lemma sortBy_key: "sortBy (\<lambda>a b. f a - f b) xs = sort_key f xs"
  by (induction xs) (auto simp: sortBy_def sort_key_def insertBy_key)

lemma sortedY_sort_key: "sortedY ls = sort_key uminus (keys ls)"
proof -
  have "(\<lambda>(a::real) b. b - a) = (\<lambda>a b. uminus a - uminus b)" by (intro ext) simp
  then show ?thesis unfolding sortedY_def using sortBy_key [of uminus "keys ls"] by simp
qed

section \<open>Line grouping\<close>

lemma foundKey_None: "foundKey y ks = None \<longleftrightarrow> (\<forall>k \<in> set ks. \<not> \<bar>fsub k y\<bar> < 5)"
  by (induction ks) auto

lemma foundKey_first:
  "\<forall>k' \<in> set pre. \<not> \<bar>fsub k' y\<bar> < 5 \<Longrightarrow> \<bar>fsub k y\<bar> < 5 \<Longrightarrow>
   foundKey y (pre @ k # post) = Some k"
  by (induction pre) auto

lemma push_entry_first:
  "k \<notin> fst ` set pre \<Longrightarrow> push_entry k it (pre @ (k, g) # post) = pre @ (k, g @ [it]) # post"
  by (induction pre) auto

lemma set_entry_new: "y \<notin> fst ` set ls \<Longrightarrow> set_entry y v ls = ls @ [(y, v)]"
  by (induction ls) auto

lemma groupItems_snoc: "groupItems (items @ [it]) = groupItem (groupItems items) it"
  by (simp add: groupItems_def)

lemma trim_Nil: "trim [] = []"
  by (simp add: trim_def)

lemma groupItem_skip: "str it = [] \<or> trim (str it) = [] \<Longrightarrow> groupItem ls it = ls"
  by (simp add: groupItem_def)

lemma groupItem_found:
  assumes "trim (str it) \<noteq> []" and "ls = pre @ (k, g) # post"
    and "\<forall>(k', g') \<in> set pre. \<not> \<bar>fsub k' (transform5 it)\<bar> < 5" and "\<bar>fsub k (transform5 it)\<bar> < 5"
  shows "groupItem ls it = pre @ (k, g @ [it]) # post"
proof -
  from assms(1) have ne: "str it \<noteq> []" using trim_Nil by auto
  have fk: "foundKey (transform5 it) (keys ls) = Some k"
    unfolding keys_def assms(2) using assms(3,4)
    by (simp add: foundKey_first case_prod_beta)
  have "k \<notin> fst ` set pre" using assms(3,4) by (auto simp: case_prod_beta)
  then show ?thesis using assms(1) ne fk
    by (simp add: groupItem_def assms(2) push_entry_first)
qed

lemma groupItem_new:
  assumes "trim (str it) \<noteq> []"
    and "\<forall>(k', g') \<in> set ls. \<not> \<bar>fsub k' (transform5 it)\<bar> < 5"
  shows "groupItem ls it = ls @ [(transform5 it, [it])]"
proof -
  from assms(1) have ne: "str it \<noteq> []" using trim_Nil by auto
  have fk: "foundKey (transform5 it) (keys ls) = None"
    using assms(2) by (auto simp: foundKey_None keys_def)
  have "transform5 it \<notin> fst ` set ls" using assms(2) by (auto simp: case_prod_beta fsub_self)
  then show ?thesis using assms(1) ne fk
    by (simp add: groupItem_def set_entry_new)
qed

lemma split_first:
  "\<exists>x \<in> set xs. P x \<Longrightarrow> \<exists>pre x post. xs = pre @ x # post \<and> P x \<and> (\<forall>z \<in> set pre. \<not> P z)"
  by (metis split_list_first_prop)

lemma groupItem_inv:
  assumes "\<forall>e \<in> set ls. group_ok e" "distinct (keys ls)"
  shows "(\<forall>e \<in> set (groupItem ls it). group_ok e) \<and> distinct (keys (groupItem ls it))"
proof (cases "trim (str it) = []")
  case True
  then show ?thesis using assms by (simp add: groupItem_skip)
next
  case False
  show ?thesis
  proof (cases "\<exists>e \<in> set ls. \<bar>fsub (fst e) (transform5 it)\<bar> < 5")
    case True
    then obtain pre e post where sp: "ls = pre @ e # post" "\<bar>fsub (fst e) (transform5 it)\<bar> < 5"
      "\<forall>z \<in> set pre. \<not> \<bar>fsub (fst z) (transform5 it)\<bar> < 5"
      using split_first [of ls "\<lambda>e. \<bar>fsub (fst e) (transform5 it)\<bar> < 5"] by blast
    obtain k g where e: "e = (k, g)" by (cases e)
    have "groupItem ls it = pre @ (k, g @ [it]) # post"
      using groupItem_found [OF False, of ls pre k g post] sp e by (auto simp: case_prod_beta)
    moreover have "group_ok (k, g @ [it])"
      using assms(1) sp e False by (auto simp: group_ok_def)
    ultimately show ?thesis using assms sp e by (auto simp: keys_def)
  next
    case none: False
    then have "groupItem ls it = ls @ [(transform5 it, [it])]"
      using groupItem_new [OF False, of ls] by (auto simp: case_prod_beta)
    moreover have "transform5 it \<notin> set (keys ls)" using none by (auto simp: keys_def fsub_self)
    ultimately show ?thesis using assms False by (auto simp: keys_def group_ok_def fsub_self)
  qed
qed

lemma groupItems_inv:
  "(\<forall>e \<in> set (groupItems items). group_ok e) \<and> distinct (keys (groupItems items))"
proof (induction items rule: rev_induct)
  case Nil
  then show ?case by (simp add: groupItems_def keys_def)
next
  case (snoc it items)
  then show ?case using groupItem_inv [of "groupItems items" it] by (simp add: groupItems_snoc)
qed

text \<open>
  C3, as amended. The items of a page are taken in arrival order. An item whose text is
  empty or only white space leaves the groups as they are. Any other item, of vertical
  origin \<open>y\<close>, joins the first group, in creation order, for whose key \<open>k\<close> the double
  \<^verbatim>\<open>Math.abs(k - y)\<close>, taken of the difference rounded to the nearest double, is less
  than 5, and all other groups stay as they are; when there is no such group, a new
  group keyed by \<open>y\<close> is added after the existing ones. The groups at the time an item
  arrives are those built from the items that arrived before it, so no sorted order
  plays a part. Every group is keyed by the vertical origin of its first item and all
  its members passed that test against the key.
\<close>

theorem C3_line_grouping:
  "(str it = [] \<or> trim (str it) = [] \<longrightarrow> groupItems (items @ [it]) = groupItems items) \<and>
   (trim (str it) \<noteq> [] \<longrightarrow>
      (\<forall>pre k g post.
          groupItems items = pre @ (k, g) # post
          \<and> (\<forall>(k', g') \<in> set pre. \<not> \<bar>fsub k' (transform5 it)\<bar> < 5)
          \<and> \<bar>fsub k (transform5 it)\<bar> < 5 \<longrightarrow>
          groupItems (items @ [it]) = pre @ (k, g @ [it]) # post) \<and>
      ((\<forall>(k', g') \<in> set (groupItems items). \<not> \<bar>fsub k' (transform5 it)\<bar> < 5) \<longrightarrow>
          groupItems (items @ [it]) = groupItems items @ [(transform5 it, [it])])) \<and>
   (\<forall>(k, g) \<in> set (groupItems items).
      g \<noteq> [] \<and> transform5 (hd g) = k \<and> (\<forall>i \<in> set g. \<bar>fsub k (transform5 i)\<bar> < 5))"
proof (intro conjI impI allI)
  assume "str it = [] \<or> trim (str it) = []"
  then show "groupItems (items @ [it]) = groupItems items"
    by (simp add: groupItems_snoc groupItem_skip)
next
  fix pre k g post
  assume t: "trim (str it) \<noteq> []"
    and h: "groupItems items = pre @ (k, g) # post
          \<and> (\<forall>(k', g') \<in> set pre. \<not> \<bar>fsub k' (transform5 it)\<bar> < 5)
          \<and> \<bar>fsub k (transform5 it)\<bar> < 5"
  show "groupItems (items @ [it]) = pre @ (k, g @ [it]) # post"
    unfolding groupItems_snoc using groupItem_found [OF t, of "groupItems items" pre k g post] h
    by blast
next
  assume t: "trim (str it) \<noteq> []"
    and h: "\<forall>(k', g') \<in> set (groupItems items). \<not> \<bar>fsub k' (transform5 it)\<bar> < 5"
  show "groupItems (items @ [it]) = groupItems items @ [(transform5 it, [it])]"
    unfolding groupItems_snoc using groupItem_new [OF t h] .
next
  show "\<forall>(k, g) \<in> set (groupItems items).
      g \<noteq> [] \<and> transform5 (hd g) = k \<and> (\<forall>i \<in> set g. \<bar>fsub k (transform5 i)\<bar> < 5)"
    using groupItems_inv [of items] by (auto simp: group_ok_def)
qed

lemma trim_sample: "trim ''a'' = ''a''" "trim ''b'' = ''b''" "trim ''c'' = ''c''" "trim ''  '' = []"
  by (simp_all add: trim_def isWhiteSpace_def)

lemma groupItems_sample:
  "groupItems [fragment ''a'' 0 700 5, fragment ''b'' 0 650 5] =
     [(700, [fragment ''a'' 0 700 5]), (650, [fragment ''b'' 0 650 5])]"
  by (simp add: groupItems_def groupItem_def fragment_def keys_def trim_sample round64_int)

text \<open>
  With groups keyed 700 and 650 in place: an item at 698 joins the group keyed 700, an
  item at 640 opens a third group, and an item of two spaces changes nothing.
\<close>

theorem C3_line_grouping_witness:
  "groupItems ([fragment ''a'' 0 700 5, fragment ''b'' 0 650 5] @ [fragment ''c'' 9 698 5]) =
     [(700, [fragment ''a'' 0 700 5, fragment ''c'' 9 698 5]), (650, [fragment ''b'' 0 650 5])] \<and>
   groupItems ([fragment ''a'' 0 700 5, fragment ''b'' 0 650 5] @ [fragment ''c'' 9 640 5]) =
     [(700, [fragment ''a'' 0 700 5]), (650, [fragment ''b'' 0 650 5]),
      (640, [fragment ''c'' 9 640 5])] \<and>
   groupItems ([fragment ''a'' 0 700 5, fragment ''b'' 0 650 5] @ [fragment ''  '' 9 698 5]) =
     [(700, [fragment ''a'' 0 700 5]), (650, [fragment ''b'' 0 650 5])]"
proof (intro conjI)
  let ?its = "[fragment ''a'' 0 700 5, fragment ''b'' 0 650 5]"
  let ?c = "fragment ''c'' 9 698 5"
  have t: "trim (str ?c) \<noteq> []" by (simp add: fragment_def trim_sample)
  have g: "groupItems ?its = [] @ (700, [fragment ''a'' 0 700 5]) # [(650, [fragment ''b'' 0 650 5])]
      \<and> (\<forall>(k', g') \<in> set []. \<not> \<bar>fsub k' (transform5 ?c)\<bar> < 5) \<and> \<bar>fsub 700 (transform5 ?c)\<bar> < 5"
    by (simp add: groupItems_sample) (simp add: fragment_def round64_int)
  from C3_line_grouping [of ?c ?its] t g
  have "groupItems (?its @ [?c]) =
      [] @ (700, [fragment ''a'' 0 700 5] @ [?c]) # [(650, [fragment ''b'' 0 650 5])]"
    by blast
  then show "groupItems (?its @ [?c]) =
     [(700, [fragment ''a'' 0 700 5, ?c]), (650, [fragment ''b'' 0 650 5])]"
    by simp
next
  let ?its = "[fragment ''a'' 0 700 5, fragment ''b'' 0 650 5]"
  let ?c = "fragment ''c'' 9 640 5"
  have t: "trim (str ?c) \<noteq> []" by (simp add: fragment_def trim_sample)
  have g: "\<forall>(k', g') \<in> set (groupItems ?its). \<not> \<bar>fsub k' (transform5 ?c)\<bar> < 5"
    by (simp add: groupItems_sample) (simp add: fragment_def round64_int)
  from C3_line_grouping [of ?c ?its] t g
  have "groupItems (?its @ [?c]) = groupItems ?its @ [(transform5 ?c, [?c])]"
    by blast
  then show "groupItems (?its @ [?c]) =
     [(700, [fragment ''a'' 0 700 5]), (650, [fragment ''b'' 0 650 5]), (640, [?c])]"
    by (simp add: groupItems_sample) (simp add: fragment_def round64_int)
next
  let ?its = "[fragment ''a'' 0 700 5, fragment ''b'' 0 650 5]"
  let ?c = "fragment ''  '' 9 698 5"
  have t: "str ?c = [] \<or> trim (str ?c) = []" by (simp add: fragment_def trim_sample)
  from C3_line_grouping [of ?c ?its] t
  have "groupItems (?its @ [?c]) = groupItems ?its" by blast
  then show "groupItems (?its @ [?c]) =
     [(700, [fragment ''a'' 0 700 5]), (650, [fragment ''b'' 0 650 5])]"
    by (simp add: groupItems_sample)
qed

text \<open>
  The doubles written 5.3 and 0.3, and their rounded difference: the exact difference
  is 5 less three units of the 54th binary place, between the doubles 5 less one unit
  of the 50th place and 5, and nearer to 5.
\<close>

lemma fsub_sample_5: "fsub (5967269506265907 / 2 ^ 50) (5404319552844595 / 2 ^ 54) = 5"
proof -
  let ?d = "90071992547409917 / 2 ^ 54 :: real"
  have d: "5967269506265907 / 2 ^ 50 - 5404319552844595 / 2 ^ 54 = ?d" by simp
  have "round64 ?d =
      of_int (roundTiesToEven (?d / 2 powi max (2 - 52) (- 1074))) * 2 powi max (2 - 52) (- 1074)"
    by (rule round64_binade) simp_all
  also have "(2::real) powi max (2 - 52) (- 1074) = 1 / 2 ^ 50"
    by (simp add: powi_neg_numeral)
  also have "?d / (1 / 2 ^ 50) = 90071992547409917 / 16"
    by simp
  also have "roundTiesToEven (90071992547409917 / 16) = 5629499534213120"
    by (simp add: roundTiesToEven_def Let_def)
  finally show ?thesis unfolding fsub_def d by simp
qed

lemma groupItems_two_apart:
  assumes "trim (str a) \<noteq> []" "trim (str b) \<noteq> []"
    and "\<not> \<bar>fsub (transform5 a) (transform5 b)\<bar> < 5"
  shows "groupItems [a, b] = [(transform5 a, [a]), (transform5 b, [b])]"
proof -
  have 1: "groupItem [] a = [(transform5 a, [a])]"
    using groupItem_new [OF assms(1), of "[]"] by simp
  have 2: "groupItem [(transform5 a, [a])] b = [(transform5 a, [a])] @ [(transform5 b, [b])]"
    by (rule groupItem_new [OF assms(2)]) (simp add: assms(3))
  show ?thesis by (simp add: groupItems_def 1 2)
qed

text \<open>
  The claim as stated fails on two items whose vertical origins are the doubles written
  5.3 and 0.3: they differ by less than 5, and the second item does not join the group
  of the first but opens a group of its own, the rounded difference being 5.
\<close>

theorem C3_counterexample:
  "groupItems [fragment ''a'' 72 (5967269506265907 / 2 ^ 50) 5,
               fragment ''b'' 72 (5404319552844595 / 2 ^ 54) 5] =
     [(5967269506265907 / 2 ^ 50, [fragment ''a'' 72 (5967269506265907 / 2 ^ 50) 5]),
      (5404319552844595 / 2 ^ 54, [fragment ''b'' 72 (5404319552844595 / 2 ^ 54) 5])] \<and>
   \<bar>5967269506265907 / 2 ^ 50 - 5404319552844595 / 2 ^ 54\<bar> < (5::real)"
proof
  let ?a = "fragment ''a'' 72 (5967269506265907 / 2 ^ 50) 5"
  let ?b = "fragment ''b'' 72 (5404319552844595 / 2 ^ 54) 5"
  have ya: "transform5 ?a = 5967269506265907 / 2 ^ 50"
    and yb: "transform5 ?b = 5404319552844595 / 2 ^ 54"
    unfolding fragment_def by (rule item.select_convs)+
  have a: "trim (str ?a) \<noteq> []" and b: "trim (str ?b) \<noteq> []"
    by (simp_all add: fragment_def trim_sample)
  have c: "\<not> \<bar>fsub (transform5 ?a) (transform5 ?b)\<bar> < 5"
    unfolding ya yb fsub_sample_5 by simp
  show "groupItems [?a, ?b] =
     [(5967269506265907 / 2 ^ 50, [?a]), (5404319552844595 / 2 ^ 54, [?b])]"
    using groupItems_two_apart [OF a b c] unfolding ya yb .
  show "\<bar>5967269506265907 / 2 ^ 50 - 5404319552844595 / 2 ^ 54\<bar> < (5::real)"
    by simp
qed

text \<open>
  The grouping follows arrival order: the vertical origins 0, 4, 8 give two groups when
  they arrive in this order and one group when 4 arrives first.
\<close>

lemma grouping_follows_arrival_order:
  "groupItems [fragment ''a'' 0 0 5, fragment ''b'' 0 4 5, fragment ''c'' 0 8 5] =
     [(0, [fragment ''a'' 0 0 5, fragment ''b'' 0 4 5]), (8, [fragment ''c'' 0 8 5])] \<and>
   groupItems [fragment ''b'' 0 4 5, fragment ''a'' 0 0 5, fragment ''c'' 0 8 5] =
     [(4, [fragment ''b'' 0 4 5, fragment ''a'' 0 0 5, fragment ''c'' 0 8 5])]"
  by (simp add: groupItems_def groupItem_def fragment_def keys_def trim_sample round64_int)

section \<open>Spacing within a line\<close>

lemma lineStr_split:
  "Suc j < length its \<Longrightarrow>
   lineStr its =
     lineStr (take (Suc j) its) @ spacing (its ! j) (its ! Suc j) @ lineStr (drop (Suc j) its)"
proof (induction its arbitrary: j rule: lineStr.induct)
  case (3 current nxt rest)
  show ?case
  proof (cases j)
    case 0
    then show ?thesis by simp
  next
    case (Suc j')
    with 3 show ?thesis by (cases rest) auto
  qed
qed simp_all

lemma lineStr_snoc_suffix: "suffix (str x) (lineStr (xs @ [x]))"
proof (induction xs rule: lineStr.induct)
  case (3 current nxt rest)
  then show ?case by (simp add: suffix_appendI)
qed (simp_all add: suffix_appendI)

lemma lineStr_Cons_prefix: "prefix (str x) (lineStr (x # xs))"
  by (cases xs) simp_all

text \<open>
  C4, as amended. For two consecutive items \<open>j\<close> and \<open>j + 1\<close> of a line, with the gap
  the double \<^verbatim>\<open>next.x - (current.x + current.w)\<close>, the width 0 when absent, the sum
  and then the difference each rounded to the nearest double: the line's text is the
  text up to and including the current item's, then 4 spaces when the gap exceeds 20,
  1 space when it exceeds 2 but not 20, nothing otherwise, then the text from the next
  item's on.
\<close>

theorem C4_spacing:
  "Suc j < length its \<Longrightarrow>
   (let current = its ! j; nxt = its ! Suc j;
        g = fsub (transform4 nxt)
              (fadd (transform4 current) (case width current of None \<Rightarrow> 0 | Some w \<Rightarrow> w));
        sep = (if g > 20 then replicate 4 (CHR '' '')
               else if g > 2 then replicate 1 (CHR '' '') else [])
    in lineStr its = lineStr (take (Suc j) its) @ sep @ lineStr (drop (Suc j) its)
       \<and> suffix (str current) (lineStr (take (Suc j) its))
       \<and> prefix (str nxt) (lineStr (drop (Suc j) its)))"
proof -
  assume j: "Suc j < length its"
  have sp: "spacing (its ! j) (its ! Suc j) =
     (let g = fsub (transform4 (its ! Suc j))
                (fadd (transform4 (its ! j)) (case width (its ! j) of None \<Rightarrow> 0 | Some w \<Rightarrow> w))
      in if g > 20 then replicate 4 (CHR '' '')
         else if g > 2 then replicate 1 (CHR '' '') else [])"
    by (simp add: spacing_def gap_def Let_def eval_nat_numeral)
  have a: "suffix (str (its ! j)) (lineStr (take (Suc j) its))"
    using j lineStr_snoc_suffix [of "its ! j" "take j its"] by (simp add: take_Suc_conv_app_nth)
  have b: "prefix (str (its ! Suc j)) (lineStr (drop (Suc j) its))"
    using j lineStr_Cons_prefix [of "its ! Suc j" "drop (Suc (Suc j)) its"]
    by (simp add: Cons_nth_drop_Suc)
  show ?thesis using lineStr_split [OF j] a b unfolding sp by (simp add: Let_def)
qed

text \<open>
  Two items on one line, the first at 0 with width 10: a second item at 35 (gap 25) is
  set off by 4 spaces, at 20 (gap 10) by 1 space, at 11 (gap 1) by nothing; with the
  width absent the gap is counted from the origin.
\<close>

theorem C4_spacing_witness:
  "lineStr [fragment ''A'' 0 700 10, fragment ''B'' 35 700 5] = ''A    B'' \<and>
   lineStr [fragment ''A'' 0 700 10, fragment ''B'' 20 700 5] = ''A B'' \<and>
   lineStr [fragment ''A'' 0 700 10, fragment ''B'' 11 700 5] = ''AB'' \<and>
   lineStr [\<lparr>str = ''A'', transform4 = 0, transform5 = 700, width = None\<rparr>,
            fragment ''B'' 11 700 5] = ''A B''"
proof (intro conjI)
  have j: "Suc 0 < length [x, y]" for x y :: item by simp
  show "lineStr [fragment ''A'' 0 700 10, fragment ''B'' 35 700 5] = ''A    B''"
    using C4_spacing [OF j, of "fragment ''A'' 0 700 10" "fragment ''B'' 35 700 5"]
    by (simp add: fragment_def Let_def eval_nat_numeral round64_int)
  show "lineStr [fragment ''A'' 0 700 10, fragment ''B'' 20 700 5] = ''A B''"
    using C4_spacing [OF j, of "fragment ''A'' 0 700 10" "fragment ''B'' 20 700 5"]
    by (simp add: fragment_def Let_def eval_nat_numeral round64_int)
  show "lineStr [fragment ''A'' 0 700 10, fragment ''B'' 11 700 5] = ''AB''"
    using C4_spacing [OF j, of "fragment ''A'' 0 700 10" "fragment ''B'' 11 700 5"]
    by (simp add: fragment_def Let_def eval_nat_numeral round64_int)
  show "lineStr [\<lparr>str = ''A'', transform4 = 0, transform5 = 700, width = None\<rparr>,
            fragment ''B'' 11 700 5] = ''A B''"
    using C4_spacing [OF j, of "\<lparr>str = ''A'', transform4 = 0, transform5 = 700, width = None\<rparr>"
        "fragment ''B'' 11 700 5"]
    by (simp add: fragment_def Let_def eval_nat_numeral round64_int)
qed

text \<open>
  The doubles written 8.9 and 80.9: the sum of 70 and the first rounds to the double
  written 78.9, and the difference of the second and that double is 2.
\<close>

lemma fadd_sample_70: "fadd 70 (5010254585449677 / 2 ^ 49) = 2776046957808845 / 2 ^ 45"
proof -
  let ?d = "44416751324941517 / 2 ^ 49 :: real"
  have d: "70 + 5010254585449677 / 2 ^ 49 = ?d" by simp
  have "round64 ?d =
      of_int (roundTiesToEven (?d / 2 powi max (6 - 52) (- 1074))) * 2 powi max (6 - 52) (- 1074)"
    by (rule round64_binade) simp_all
  also have "(2::real) powi max (6 - 52) (- 1074) = 1 / 2 ^ 46"
    by (simp add: powi_neg_numeral)
  also have "?d / (1 / 2 ^ 46) = 44416751324941517 / 8"
    by simp
  also have "roundTiesToEven (44416751324941517 / 8) = 5552093915617690"
    by (simp add: roundTiesToEven_def Let_def)
  finally show ?thesis unfolding fadd_def d by simp
qed

lemma fsub_sample_2: "fsub (2846415701986509 / 2 ^ 45) (2776046957808845 / 2 ^ 45) = 2"
proof -
  have d: "2846415701986509 / 2 ^ 45 - 2776046957808845 / 2 ^ 45 = (2::real)" by simp
  have "round64 2 = 2" by (simp add: round64_numeral)
  then show ?thesis unfolding fsub_def d .
qed

text \<open>
  The claim as stated fails on two items of one line, the first at 70 of width 8.9, the
  second at 80.9 (the doubles so written): the gap, taken exactly, exceeds 2, and
  nothing is inserted between the two texts, the computed gap being 2.
\<close>

theorem C4_counterexample:
  "lineStr [fragment ''A'' 70 700 (5010254585449677 / 2 ^ 49),
            fragment ''B'' (2846415701986509 / 2 ^ 45) 700 5] = ''AB'' \<and>
   (2::real) < 2846415701986509 / 2 ^ 45 - (70 + 5010254585449677 / 2 ^ 49)"
proof
  let ?a = "fragment ''A'' 70 700 (5010254585449677 / 2 ^ 49)"
  let ?b = "fragment ''B'' (2846415701986509 / 2 ^ 45) 700 5"
  have xa: "transform4 ?a = 70" and wa: "width ?a = Some (5010254585449677 / 2 ^ 49)"
    and xb: "transform4 ?b = 2846415701986509 / 2 ^ 45"
    and sa: "str ?a = ''A''" and sb: "str ?b = ''B''"
    unfolding fragment_def by (rule item.select_convs)+
  have "gap ?a ?b = 2"
    unfolding gap_def xa wa xb option.case fadd_sample_70 fsub_sample_2 ..
  then have "spacing ?a ?b = []" by (simp add: spacing_def)
  then show "lineStr [?a, ?b] = ''AB''"
    unfolding lineStr.simps sa sb by simp
  show "(2::real) < 2846415701986509 / 2 ^ 45 - (70 + 5010254585449677 / 2 ^ 49)"
    by simp
qed

section \<open>Order of the lines and of the items of a line\<close>

lemma foldl_append_concat:
  "foldl (\<lambda>text y. text @ f y) acc ys = acc @ concat (map f ys)"
  by (induction ys arbitrary: acc) simp_all

lemma pageText_concat:
  "pageText items =
     concat (map (\<lambda>y. lineStr (lineItems (groupItems items) y) @ [newline])
                 (sortedY (groupItems items)))"
  by (simp add: pageText_def Let_def foldl_append_concat)

lemma sorted_wrt_strict:
  "sorted_wrt (\<lambda>a b. (b::real) \<le> a) xs \<Longrightarrow> distinct xs \<Longrightarrow> sorted_wrt (\<lambda>a b. b < a) xs"
  by (induction xs) (auto simp: less_le)

lemma sortedY_desc:
  "distinct (keys ls) \<Longrightarrow> sorted_wrt (\<lambda>a b. b < a) (sortedY ls)"
proof -
  assume d: "distinct (keys ls)"
  have "sorted (map uminus (sortedY ls))" by (simp add: sortedY_sort_key)
  then have "sorted_wrt (\<lambda>a b. (b::real) \<le> a) (sortedY ls)"
    by (simp add: sorted_map)
  moreover have "distinct (sortedY ls)" using d by (simp add: sortedY_sort_key)
  ultimately show ?thesis by (rule sorted_wrt_strict)
qed

lemma sortedY_mset: "mset (sortedY ls) = mset (keys ls)"
  by (simp add: sortedY_sort_key)

lemma lineItems_sorted: "sorted (map transform4 (lineItems ls y))"
  by (simp add: lineItems_def sortBy_key)

lemma lineItems_mset:
  "y \<in> set (keys ls) \<Longrightarrow> \<exists>g. (y, g) \<in> set ls \<and> get ls y = Some g \<and> mset (lineItems ls y) = mset g"
proof -
  assume "y \<in> set (keys ls)"
  then have "map_of ls y \<noteq> None"
    by (simp add: map_of_eq_None_iff keys_def)
  then obtain g where g: "map_of ls y = Some g" by blast
  then have "(y, g) \<in> set ls" by (rule map_of_SomeD)
  then show ?thesis using g by (auto simp: lineItems_def get_def sortBy_key)
qed

text \<open>
  C5, as amended. For the items of a page: the lines come in strictly descending order
  of their groups' keys, one line for each group; the items of a line are those of its
  group in ascending order of horizontal origin; the page text is the lines' texts in
  that order, each followed by a newline (so the text of a page with items ends with a
  newline, and the lines are not merely separated by newlines); no items give the empty
  text.
\<close>

theorem C5_page_text:
  "(let ls = groupItems items; ys = sortedY ls in
      sorted_wrt (\<lambda>a b. b < a) ys \<and> mset ys = mset (keys ls)
      \<and> (\<forall>y \<in> set ys. sorted (map transform4 (lineItems ls y))
            \<and> (\<exists>g. (y, g) \<in> set ls \<and> mset (lineItems ls y) = mset g))
      \<and> pageText items = concat (map (\<lambda>y. lineStr (lineItems ls y) @ [newline]) ys))
   \<and> pageText [] = []"
proof -
  let ?ls = "groupItems items"
  have d: "distinct (keys ?ls)" using groupItems_inv [of items] by simp
  have 1: "sorted_wrt (\<lambda>a b. b < a) (sortedY ?ls)" using d by (rule sortedY_desc)
  have 2: "mset (sortedY ?ls) = mset (keys ?ls)" by (rule sortedY_mset)
  have 3: "\<forall>y \<in> set (sortedY ?ls). sorted (map transform4 (lineItems ?ls y))
            \<and> (\<exists>g. (y, g) \<in> set ?ls \<and> mset (lineItems ?ls y) = mset g)"
  proof
    fix y assume "y \<in> set (sortedY ?ls)"
    then have "y \<in> set (keys ?ls)" using mset_eq_setD [OF 2] by simp
    then show "sorted (map transform4 (lineItems ?ls y))
            \<and> (\<exists>g. (y, g) \<in> set ?ls \<and> mset (lineItems ?ls y) = mset g)"
      using lineItems_sorted [of ?ls y] lineItems_mset [of y ?ls] by blast
  qed
  have 4: "pageText [] = []"
    by (simp add: pageText_def groupItems_def sortedY_def keys_def sortBy_def)
  show ?thesis unfolding Let_def by (intro conjI 1 2 3 4 pageText_concat)
qed

lemma groupItems_three:
  "groupItems [fragment ''b'' 0 650 5, fragment ''c'' 40 700 5, fragment ''a'' 0 700 5,
               fragment ''d'' 0 600 5] =
     [(650, [fragment ''b'' 0 650 5]), (700, [fragment ''c'' 40 700 5, fragment ''a'' 0 700 5]),
      (600, [fragment ''d'' 0 600 5])]"
  by (simp add: groupItems_def groupItem_def fragment_def keys_def trim_def isWhiteSpace_def
        round64_int)

text \<open>
  Lines at 650, 700 and 600, arriving in this order, the line at 700 with its right
  item first: the text has the line at 700 first, left item first, then 650, then 600.
\<close>

theorem C5_page_text_witness:
  "pageText [fragment ''b'' 0 650 5, fragment ''c'' 40 700 5, fragment ''a'' 0 700 5,
             fragment ''d'' 0 600 5] =
     ''a    c'' @ [newline] @ ''b'' @ [newline] @ ''d'' @ [newline]"
proof -
  let ?items = "[fragment ''b'' 0 650 5, fragment ''c'' 40 700 5, fragment ''a'' 0 700 5,
                 fragment ''d'' 0 600 5]"
  have "pageText ?items =
      concat (map (\<lambda>y. lineStr (lineItems (groupItems ?items) y) @ [newline])
                  (sortedY (groupItems ?items)))"
    using C5_page_text [of ?items] by (simp add: Let_def)
  also have "sortedY (groupItems ?items) = [700, 650, 600]"
    by (simp add: groupItems_three sortedY_def keys_def sortBy_def)
  finally show ?thesis
    by (simp add: groupItems_three lineItems_def get_def sortBy_def)
       (simp add: fragment_def spacing_def gap_def round64_int)
qed

text \<open>
  The claim as stated fails on a page with one item: the page text is the line and a
  newline, while the lines joined by newline are the line alone.
\<close>

theorem C5_counterexample:
  "pageText [fragment ''A'' 0 700 5] = ''A'' @ [newline] \<and>
   join [newline]
     (map (\<lambda>y. lineStr (lineItems (groupItems [fragment ''A'' 0 700 5]) y))
          (sortedY (groupItems [fragment ''A'' 0 700 5]))) = ''A''"
proof -
  have g: "groupItems [fragment ''A'' 0 700 5] = [(700, [fragment ''A'' 0 700 5])]"
    by (simp add: groupItems_def groupItem_def fragment_def keys_def trim_def isWhiteSpace_def)
  have s: "sortedY [(700, [fragment ''A'' 0 700 5])] = [700]"
    by (simp add: sortedY_def keys_def sortBy_def)
  have l: "lineItems [(700, [fragment ''A'' 0 700 5])] 700 = [fragment ''A'' 0 700 5]"
    by (simp add: lineItems_def get_def sortBy_def)
  show ?thesis
    by (simp add: pageText_def Let_def g s l) (simp add: fragment_def)
qed

section \<open>PDF Extractor\<close>

lemma digit_value: "n < 10 \<Longrightarrow> (of_char (digitChar n) :: nat) - 48 = n"
  by simp

text \<open>The numeral of a page marker reads back as the page number.\<close>

lemma numberToString_value:
  "foldl (\<lambda>a c. 10 * a + (of_char c - 48)) 0 (numberToString n) = n"
proof (induction n rule: numberToString.induct)
  case (1 n)
  show ?case
  proof (cases "n < 10")
    case True
    then show ?thesis by (subst numberToString.simps) simp
  next
    case False
    then show ?thesis using 1 by (subst numberToString.simps) simp
  qed
qed

lemma numberToString_sample:
  "numberToString (Suc 0) = ''1''" "numberToString 1 = ''1''" "numberToString 2 = ''2''"
  by code_simp+

lemma pagesLoop_all:
  "1 \<le> i \<Longrightarrow> pagesLoop (map Inr texts) i acc =
     Inr (acc @ concat (map (\<lambda>k. pageBlock k (texts ! (k - 1))) [i..<Suc (length texts)]))"
proof (induction "map Inr texts :: page list" i acc rule: pagesLoop.induct)
  case (1 i fullText)
  show ?case
  proof (cases "i \<le> length texts")
    case True
    then have nth: "(map Inr texts :: page list) ! (i - 1) = Inr (texts ! (i - 1))"
      using 1(2) by simp
    have "pagesLoop (map Inr texts) (i + 1) (fullText @ pageBlock i (texts ! (i - 1))) =
       Inr ((fullText @ pageBlock i (texts ! (i - 1))) @
            concat (map (\<lambda>k. pageBlock k (texts ! (k - 1))) [i + 1..<Suc (length texts)]))"
      using 1(1) [of "texts ! (i - 1)"] True nth by (simp add: pageBlock_def)
    moreover have "[i..<Suc (length texts)] = i # [i + 1..<Suc (length texts)]"
      using True by (simp add: upt_conv_Cons)
    ultimately show ?thesis using True nth
      by (subst pagesLoop.simps) (simp add: pageBlock_def)
  next
    case False
    then show ?thesis by (subst pagesLoop.simps) simp
  qed
qed

lemma pagesLoop_fail:
  "1 \<le> i \<Longrightarrow> i \<le> k \<Longrightarrow> k \<le> length pages \<Longrightarrow> isl (pages ! (k - 1)) \<Longrightarrow>
   isl (pagesLoop pages i acc)"
proof (induction pages i acc rule: pagesLoop.induct)
  case (1 pages i fullText)
  from 1(2,3,4) have le: "i \<le> length pages" by simp
  show ?case
  proof (cases "pages ! (i - 1)")
    case (Inl e)
    then show ?thesis using le by (subst pagesLoop.simps) simp
  next
    case (Inr items)
    then have "k \<noteq> i" using 1(5) by auto
    then have "i + 1 \<le> k" using 1(3) by simp
    then have "isl (pagesLoop pages (i + 1)
               (fullText @ ''--- Page '' @ numberToString i @ '' ---'' @ [newline]
                  @ pageText items @ [newline, newline]))"
      using 1(1) [OF le Inr] 1(4,5) by simp
    then show ?thesis using le Inr by (subst pagesLoop.simps) simp
  qed
qed

text \<open>
  C6. When the bytes of the file are read, the decoder accepts them and every page
  yields its items, extractPdfText returns the blocks of the pages 1 to \<open>numPages\<close> in
  ascending order, one after the other; the block of page \<open>i\<close> is the marker line
  \<^verbatim>\<open>--- Page i ---\<close>, the reconstructed text of the page, and two newlines, so that
  blank lines stand between one page's text and the next marker.
\<close>

theorem C6_page_blocks:
  "arrayBuffer file = Inr buf \<Longrightarrow> getDocument buf = Inr (map Inr texts) \<Longrightarrow>
   extractPdfText file =
     Inr (concat (map (\<lambda>i. ''--- Page '' @ numberToString i @ '' ---'' @ [newline]
                             @ pageText (texts ! (i - 1)) @ [newline, newline])
                      [1..<Suc (length texts)]))"
  using pagesLoop_all [of 1 texts "[]"] by (simp add: extractPdfText_def pageBlock_def)

lemma pageText_word:
  "pageText [fragment ''Alpha'' 72 700 30] = ''Alpha'' @ [newline]"
  "pageText [fragment ''Beta'' 72 700 30] = ''Beta'' @ [newline]"
  by (simp_all add: pageText_def groupItems_def groupItem_def fragment_def keys_def trim_def
        isWhiteSpace_def sortedY_def sortBy_def lineItems_def get_def)

text \<open>
  A document of two pages with the texts Alpha and Beta: the marker of page 1, Alpha,
  the marker of page 2, Beta, in this order.
\<close>

theorem C6_page_blocks_witness:
  "extractPdfText
     (samplePdf ''paper.pdf'' ''application/pdf''
        [Inr [fragment ''Alpha'' 72 700 30], Inr [fragment ''Beta'' 72 700 30]]) =
   Inr (''--- Page 1 ---'' @ [newline] @ ''Alpha'' @ [newline] @ [newline, newline]
        @ ''--- Page 2 ---'' @ [newline] @ ''Beta'' @ [newline] @ [newline, newline])"
proof -
  let ?texts = "[[fragment ''Alpha'' 72 700 30], [fragment ''Beta'' 72 700 30]]"
  let ?file = "samplePdf ''paper.pdf'' ''application/pdf'' (map Inr ?texts)"
  have a: "arrayBuffer ?file = Inr (Buffer (Inr (map Inr ?texts)))"
    by (simp add: samplePdf_def sampleFile_def)
  have b: "getDocument (Buffer (Inr (map Inr ?texts))) = Inr (map Inr ?texts)" by simp
  have u: "[1..<Suc (length ?texts)] = [1, 2]" by (simp add: upt_rec)
  show ?thesis
    using C6_page_blocks [OF a b] unfolding u
    by (simp add: numberToString_sample pageText_word)
qed

lemma extractPdfText_fail:
  "arrayBuffer file = Inr buf \<Longrightarrow>
   isl (getDocument buf) \<or> (\<exists>pages. getDocument buf = Inr pages \<and> (\<exists>p \<in> set pages. isl p)) \<Longrightarrow>
   extractPdfText file =
     Inl (Error ''Failed to extract text from PDF. The file might be corrupted or complex.'')"
proof -
  assume ab: "arrayBuffer file = Inr buf"
    and f: "isl (getDocument buf) \<or> (\<exists>pages. getDocument buf = Inr pages \<and> (\<exists>p \<in> set pages. isl p))"
  have "isl (case getDocument buf of Inl e \<Rightarrow> Inl e | Inr pages \<Rightarrow> pagesLoop pages 1 [])"
  proof (cases "getDocument buf")
    case (Inl e)
    then show ?thesis by simp
  next
    case (Inr pages)
    with f obtain p where "p \<in> set pages" "isl p" by auto
    then obtain n where n: "n < length pages" "pages ! n = p" by (auto simp: in_set_conv_nth)
    have "isl (pagesLoop pages 1 [])"
      using pagesLoop_fail [of 1 "Suc n" pages "[]"] n \<open>isl p\<close> by simp
    then show ?thesis using Inr by simp
  qed
  then show ?thesis using ab by (auto simp: extractPdfText_def split: sum.splits)
qed

text \<open>
  C7. When the bytes of the file are read and the decoder rejects them, or a page of
  the document fails to yield its items, extractPdfText fails with the one error whose
  message is the fixed user-facing text; the result holds no text of any page.
\<close>

theorem C7_pdf_failure_is_total:
  "arrayBuffer file = Inr buf \<Longrightarrow>
   isl (getDocument buf) \<or> (\<exists>pages. getDocument buf = Inr pages \<and> (\<exists>p \<in> set pages. isl p)) \<Longrightarrow>
   extractPdfText file =
     Inl (Error ''Failed to extract text from PDF. The file might be corrupted or complex.'')"
  by (rule extractPdfText_fail)

text \<open>
  A document whose second page cannot be read, and a file the decoder rejects: both
  give the one error, and the text of the first page is not returned.
\<close>

theorem C7_pdf_failure_is_total_witness:
  "extractPdfText
     (samplePdf ''paper.pdf'' ''application/pdf''
        [Inr [fragment ''Alpha'' 72 700 30], Inl (Error ''Invalid page request'')]) =
     Inl (Error ''Failed to extract text from PDF. The file might be corrupted or complex.'') \<and>
   extractPdfText
     ((sampleFile ''broken.pdf'' ''application/pdf'' 1000)
        \<lparr>arrayBuffer := Inr (Buffer (Inl (Error ''Invalid PDF structure'')))\<rparr>) =
     Inl (Error ''Failed to extract text from PDF. The file might be corrupted or complex.'')"
proof (intro conjI)
  let ?pages = "[Inr [fragment ''Alpha'' 72 700 30], Inl (Error ''Invalid page request'')] :: page list"
  let ?file = "samplePdf ''paper.pdf'' ''application/pdf'' ?pages"
  have a: "arrayBuffer ?file = Inr (Buffer (Inr ?pages))"
    by (simp add: samplePdf_def sampleFile_def)
  have b: "isl (getDocument (Buffer (Inr ?pages)))
      \<or> (\<exists>pages. getDocument (Buffer (Inr ?pages)) = Inr pages \<and> (\<exists>p \<in> set pages. isl p))"
    by simp
  show "extractPdfText ?file =
     Inl (Error ''Failed to extract text from PDF. The file might be corrupted or complex.'')"
    by (rule C7_pdf_failure_is_total [OF a b])
next
  let ?buf = "Buffer (Inl (Error ''Invalid PDF structure''))"
  let ?file = "(sampleFile ''broken.pdf'' ''application/pdf'' 1000)\<lparr>arrayBuffer := Inr ?buf\<rparr>"
  have a: "arrayBuffer ?file = Inr ?buf" by (simp add: sampleFile_def)
  have b: "isl (getDocument ?buf)
      \<or> (\<exists>pages. getDocument ?buf = Inr pages \<and> (\<exists>p \<in> set pages. isl p))"
    by simp
  show "extractPdfText ?file =
     Inl (Error ''Failed to extract text from PDF. The file might be corrupted or complex.'')"
    by (rule C7_pdf_failure_is_total [OF a b])
qed

section \<open>Presentation Extractor\<close>

lemma drop_plus: "drop (k + n) xs = drop n (drop k xs)"
  by (simp add: add.commute)

subsection \<open>The slide number of an entry name\<close>

lemma takeWhile_digits:
  "\<forall>c \<in> set N. isDigit c \<Longrightarrow> takeWhile isDigit (N @ ''.xml'' @ rest) = N"
  by (simp add: takeWhile_append2 isDigit_def)

lemma slideNumAt_here:
  "N \<noteq> [] \<Longrightarrow> \<forall>c \<in> set N. isDigit c \<Longrightarrow> slideNumAt (''slide'' @ N @ ''.xml'') = Some N"
  using takeWhile_digits [of N "[]"]
  by (simp add: slideNumAt_def startsWith_def Let_def drop_plus [of 5])

lemma slideNumOf_slide:
  assumes "N \<noteq> []" "\<forall>c \<in> set N. isDigit c"
  shows "slideNumOf (''ppt/slides/slide'' @ N @ ''.xml'') = N"
proof -
  have "slideNumMatch (''ppt/slides/slide'' @ N @ ''.xml'') = slideNumMatch (''slide'' @ N @ ''.xml'')"
    by (simp add: slideNumAt_def startsWith_def isDigit_def Let_def)
  also have "\<dots> = Some N"
    using slideNumAt_here [OF assms] by simp
  finally show ?thesis by (simp add: slideNumOf_def)
qed

subsection \<open>The text runs of a part\<close>

lemma runAt_SomeD:
  "runAt s = Some (m, rest) \<Longrightarrow>
   \<exists>body. m = ''<a:t>'' @ body @ ''</a:t>'' \<and> CHR ''<'' \<notin> set body \<and> s = m @ rest"
proof -
  assume a: "runAt s = Some (m, rest)"
  let ?body = "takeWhile (\<lambda>c. c \<noteq> CHR ''<'') (drop 5 s)"
  let ?r = "drop (5 + length ?body) s"
  from a have p: "prefix ''<a:t>'' s" and q: "prefix ''</a:t>'' ?r"
    and m: "m = ''<a:t>'' @ ?body @ ''</a:t>''" and r: "rest = drop 6 ?r"
    by (auto simp: runAt_def Let_def startsWith_def split: if_splits)
  from p obtain t where t: "s = ''<a:t>'' @ t" by (auto simp: prefix_def)
  have t2: "t = ?body @ dropWhile (\<lambda>c. c \<noteq> CHR ''<'') t" using t by simp
  have r2: "?r = dropWhile (\<lambda>c. c \<noteq> CHR ''<'') t"
    using t by (simp add: dropWhile_eq_drop drop_plus [of 5])
  from q obtain u where u: "?r = ''</a:t>'' @ u" by (auto simp: prefix_def)
  then have "rest = u" using r by simp
  have "CHR ''<'' \<notin> set ?body" by (auto dest: set_takeWhileD)
  moreover have "s = m @ rest"
    using t t2 r2 u m \<open>rest = u\<close> by (metis append.assoc)
  ultimately show ?thesis using m by blast
qed

lemma stripTags_body: "CHR ''<'' \<notin> set body \<Longrightarrow> stripTags (body @ ''</a:t>'') = body"
  by (induction body) (auto simp: startsWith_def)

lemma stripTags_run:
  "CHR ''<'' \<notin> set body \<Longrightarrow> stripTags (''<a:t>'' @ body @ ''</a:t>'') = body"
  using stripTags_body by (simp add: startsWith_def)

text \<open>Every match is a run: the two tags around a text without \<open><\<close>, which stripTags gives back.\<close>

lemma matchRuns_shape:
  "\<forall>m \<in> set (matchRuns s).
     \<exists>body. m = ''<a:t>'' @ body @ ''</a:t>'' \<and> CHR ''<'' \<notin> set body \<and> stripTags m = body"
proof (induction s rule: matchRuns.induct)
  case 1
  then show ?case by simp
next
  case (2 c cs)
  show ?case
  proof (cases "runAt (c # cs)")
    case None
    with 2 show ?thesis by simp
  next
    case (Some a)
    obtain m' rest where a: "a = (m', rest)" by (cases a)
    have first: "\<exists>body. m' = ''<a:t>'' @ body @ ''</a:t>'' \<and> CHR ''<'' \<notin> set body \<and> stripTags m' = body"
      using runAt_SomeD [of "c # cs" m' rest] Some a stripTags_run by auto
    have others: "\<forall>m \<in> set (matchRuns rest).
       \<exists>body. m = ''<a:t>'' @ body @ ''</a:t>'' \<and> CHR ''<'' \<notin> set body \<and> stripTags m = body"
      using 2(2) [OF Some a [symmetric]] .
    have "matchRuns (c # cs) = m' # matchRuns rest" using Some a by simp
    then show ?thesis using first others by simp
  qed
qed

lemma runAt_run:
  assumes "CHR ''<'' \<notin> set body"
  shows "runAt (''<a:t>'' @ body @ ''</a:t>'' @ Y) = Some (''<a:t>'' @ body @ ''</a:t>'', Y)"
proof -
  have tw: "takeWhile (\<lambda>c. c \<noteq> CHR ''<'') (body @ ''</a:t>'' @ Y) = body"
  proof -
    have "\<forall>c \<in> set body. c \<noteq> CHR ''<''" using assms by auto
    then show ?thesis by (simp add: takeWhile_append2)
  qed
  show ?thesis using tw by (simp add: runAt_def startsWith_def Let_def drop_plus [of 5])
qed

lemma runAt_append_Some:
  "runAt s = Some (m, rest) \<Longrightarrow> runAt (s @ X) = Some (m, rest @ X)"
proof -
  assume "runAt s = Some (m, rest)"
  then obtain body where b: "m = ''<a:t>'' @ body @ ''</a:t>''" "CHR ''<'' \<notin> set body" "s = m @ rest"
    using runAt_SomeD by blast
  then have "s @ X = ''<a:t>'' @ body @ ''</a:t>'' @ (rest @ X)" by simp
  then show ?thesis using runAt_run [OF b(2), of "rest @ X"] b(1) by simp
qed

lemma open_not_split:
  "''<a:t>'' = s @ us \<Longrightarrow> s \<noteq> [] \<Longrightarrow> us \<noteq> [] \<Longrightarrow> hd us \<noteq> CHR ''<''"
  by (auto simp: Cons_eq_append_conv)

lemma close_not_split:
  "''</a:t>'' = s @ us \<Longrightarrow> s \<noteq> [] \<Longrightarrow> us \<noteq> [] \<Longrightarrow> hd us \<noteq> CHR ''<''"
  by (auto simp: Cons_eq_append_conv)

lemma prefix_hd: "prefix us (x # xs) \<Longrightarrow> us \<noteq> [] \<Longrightarrow> hd us = x"
  by (cases us) auto

text \<open>A failed attempt stays failed when an opening tag follows the string.\<close>

lemma runAt_append_None:
  assumes "runAt s = None" "s \<noteq> []"
  shows "runAt (s @ ''<a:t>'' @ Y) = None"
proof (cases "prefix ''<a:t>'' s")
  case False
  have "\<not> prefix ''<a:t>'' (s @ ''<a:t>'' @ Y)"
  proof
    assume "prefix ''<a:t>'' (s @ ''<a:t>'' @ Y)"
    then have "prefix ''<a:t>'' s \<or> (\<exists>us. ''<a:t>'' = s @ us \<and> prefix us (''<a:t>'' @ Y))"
      using prefix_append [of "''<a:t>''" s "''<a:t>'' @ Y"] by blast
    then obtain us where us: "''<a:t>'' = s @ us" "prefix us (''<a:t>'' @ Y)"
      using False by blast
    then have "us \<noteq> []" using False by auto
    then show False using open_not_split [OF us(1) assms(2)] prefix_hd [of us "CHR ''<''"] us(2)
      by simp
  qed
  then show ?thesis by (simp add: runAt_def startsWith_def)
next
  case True
  then obtain t where t: "s = ''<a:t>'' @ t" by (auto simp: prefix_def)
  let ?P = "\<lambda>c. c \<noteq> CHR ''<''"
  let ?r = "dropWhile ?P t"
  have r: "drop (5 + length (takeWhile ?P (drop 5 s))) s = ?r"
    using t by (simp add: dropWhile_eq_drop drop_plus [of 5])
  have nr: "\<not> prefix ''</a:t>'' ?r"
    using assms(1) True r by (auto simp: runAt_def startsWith_def Let_def split: if_splits)
  have "\<not> prefix ''</a:t>'' (drop (length (takeWhile ?P (t @ ''<a:t>'' @ Y))) (t @ ''<a:t>'' @ Y))"
  proof (cases "?r = []")
    case True
    then have all: "\<forall>c \<in> set t. ?P c" by (simp add: dropWhile_eq_Nil_conv)
    then have "takeWhile ?P (t @ ''<a:t>'' @ Y) = t" by (simp add: takeWhile_append2)
    then show ?thesis by simp
  next
    case False
    then have ex: "\<exists>c \<in> set t. \<not> ?P c" by (auto simp: dropWhile_eq_Nil_conv)
    then have tw: "takeWhile ?P (t @ ''<a:t>'' @ Y) = takeWhile ?P t"
      by (auto simp: takeWhile_append1)
    have d: "drop (length (takeWhile ?P t)) (t @ ''<a:t>'' @ Y) = ?r @ ''<a:t>'' @ Y"
      by (simp add: dropWhile_eq_drop takeWhile_eq_take [symmetric] length_takeWhile_le)
    show ?thesis
    proof
      assume "prefix ''</a:t>'' (drop (length (takeWhile ?P (t @ ''<a:t>'' @ Y))) (t @ ''<a:t>'' @ Y))"
      then have "prefix ''</a:t>'' (?r @ ''<a:t>'' @ Y)" using tw d by simp
      then have "prefix ''</a:t>'' ?r \<or> (\<exists>us. ''</a:t>'' = ?r @ us \<and> prefix us (''<a:t>'' @ Y))"
        using prefix_append [of "''</a:t>''" ?r "''<a:t>'' @ Y"] by blast
      then obtain us where us: "''</a:t>'' = ?r @ us" "prefix us (''<a:t>'' @ Y)"
        using nr by blast
      then have "us \<noteq> []" using nr by auto
      then show False using close_not_split [OF us(1) False] prefix_hd [of us "CHR ''<''"] us(2)
        by simp
    qed
  qed
  then show ?thesis using t by (simp add: runAt_def startsWith_def Let_def drop_plus [of 5])
qed

text \<open>No run is missed: a run anywhere in a part is matched, after the matches before it.\<close>

lemma matchRuns_run:
  assumes "CHR ''<'' \<notin> set body"
  shows "matchRuns (pre @ ''<a:t>'' @ body @ ''</a:t>'' @ post) =
         matchRuns pre @ (''<a:t>'' @ body @ ''</a:t>'') # matchRuns post"
proof (induction pre rule: matchRuns.induct)
  case 1
  show ?case using runAt_run [OF assms, of post] by simp
next
  case (2 c cs)
  let ?run = "''<a:t>'' @ body @ ''</a:t>''"
  let ?R = "''<a:t>'' @ body @ ''</a:t>'' @ post"
  show ?case
  proof (cases "runAt (c # cs)")
    case None
    have "runAt ((c # cs) @ ''<a:t>'' @ (body @ ''</a:t>'' @ post)) = None"
      by (rule runAt_append_None [OF None]) simp
    then have n: "runAt (c # (cs @ ?R)) = None" by simp
    have "matchRuns ((c # cs) @ ?R) = matchRuns (c # (cs @ ?R))" by simp
    also have "\<dots> = matchRuns (cs @ ?R)"
      by (simp only: matchRuns.simps n option.case)
    also have "\<dots> = matchRuns cs @ ?run # matchRuns post"
      using 2(1) [OF None] .
    also have "matchRuns cs = matchRuns (c # cs)"
      by (simp only: matchRuns.simps None option.case)
    finally show ?thesis .
  next
    case (Some a)
    obtain m rest where a: "a = (m, rest)" by (cases a)
    have s: "runAt (c # cs) = Some (m, rest)" using Some a by simp
    have "runAt ((c # cs) @ ?R) = Some (m, rest @ ?R)"
      by (rule runAt_append_Some [OF s])
    then have n: "runAt (c # (cs @ ?R)) = Some (m, rest @ ?R)" by simp
    have "matchRuns ((c # cs) @ ?R) = matchRuns (c # (cs @ ?R))" by simp
    also have "\<dots> = m # matchRuns (rest @ ?R)"
      by (simp only: matchRuns.simps n option.case prod.case)
    also have "matchRuns (rest @ ?R) = matchRuns rest @ ?run # matchRuns post"
      using 2(2) [OF Some a [symmetric]] .
    also have "m # matchRuns rest @ ?run # matchRuns post =
               matchRuns (c # cs) @ ?run # matchRuns post"
      by (simp only: matchRuns.simps s option.case prod.case append_Cons)
    finally show ?thesis .
  qed
qed

subsection \<open>The block of a slide\<close>

lemma slideStep_acc:
  "slideStep z fullText slideFile =
     (case slideStep z [] slideFile of Inl e \<Rightarrow> Inl e | Inr b \<Rightarrow> Inr (fullText @ b))"
  by (simp add: slideStep_def Let_def split: sum.splits option.splits)

lemma slidesLoop_blocks:
  "\<forall>f \<in> set fs. isl (slideStep z [] f) = False \<Longrightarrow>
   slidesLoop z fs fullText = Inr (fullText @ concat (map (slideBlock z) fs))"
proof (induction fs arbitrary: fullText)
  case Nil
  then show ?case by simp
next
  case (Cons f fs)
  then obtain b where b: "slideStep z [] f = Inr b" by (cases "slideStep z [] f") auto
  then have "slideStep z fullText f = Inr (fullText @ b)"
    using slideStep_acc [of z fullText f] by simp
  then show ?case using Cons b by (simp add: slideBlock_def)
qed

text \<open>
  C2, as amended. For a slide entry \<^verbatim>\<open>ppt/slides/slideN.xml\<close> (\<open>N\<close> a numeral) whose
  content is read: when the content has at least one text run, the extractor appends
  the marker line \<^verbatim>\<open>--- Slide N ---\<close> and, on the next line, the texts of all runs of
  the slide, tags stripped, joined by one space; when it has no run, it appends no
  marker and no line for the slide. Then, when the entry
  \<^verbatim>\<open>ppt/notesSlides/notesSlideN.xml\<close> exists and has at least one run, it appends the
  line \<^verbatim>\<open>[Slide N Notes: ...]\<close> with the texts of the runs of the notes joined by one
  space. Every match is a run between the two tags, no run of a part is missed, the
  entry is among the slide entries the extractor visits, and the text of the
  presentation is the blocks of the slide entries in enumeration order.
\<close>

theorem C2_slide_block:
  assumes "N \<noteq> []" and "\<forall>c \<in> set N. isDigit c"
    and "map_of z (''ppt/slides/slide'' @ N @ ''.xml'') = Some (Inr content)"
    and "map_of z (''ppt/notesSlides/notesSlide'' @ N @ ''.xml'') = map_option Inr notesPart"
  shows "slideStep z fullText (''ppt/slides/slide'' @ N @ ''.xml'') =
     Inr (fullText
          @ (if matchRuns content = [] then []
             else ''--- Slide '' @ N @ '' ---'' @ [newline]
                    @ join '' '' (map stripTags (matchRuns content)) @ [newline])
          @ (case notesPart of
               None \<Rightarrow> []
             | Some notesContent \<Rightarrow>
                 if matchRuns notesContent = [] then []
                 else ''[Slide '' @ N @ '' Notes: ''
                        @ join '' '' (map stripTags (matchRuns notesContent)) @ '']'' @ [newline]))
   \<and> (\<forall>m \<in> set (matchRuns content)
              \<union> (case notesPart of None \<Rightarrow> {} | Some notesContent \<Rightarrow> set (matchRuns notesContent)).
         \<exists>body. m = ''<a:t>'' @ body @ ''</a:t>'' \<and> CHR ''<'' \<notin> set body \<and> stripTags m = body)
   \<and> (\<forall>pre body post.
         content = pre @ ''<a:t>'' @ body @ ''</a:t>'' @ post \<and> CHR ''<'' \<notin> set body \<longrightarrow>
         matchRuns content = matchRuns pre @ (''<a:t>'' @ body @ ''</a:t>'') # matchRuns post)
   \<and> ''ppt/slides/slide'' @ N @ ''.xml'' \<in> set (slideFiles z)
   \<and> (loadAsync file = Inr z \<and> (\<forall>f \<in> set (slideFiles z). isl (slideStep z [] f) = False) \<longrightarrow>
         extractPptxText file = Inr (concat (map (slideBlock z) (slideFiles z))))"
proof (intro conjI)
  have n: "slideNumOf (''ppt/slides/slide'' @ N @ ''.xml'') = N"
    using slideNumOf_slide [OF assms(1,2)] .
  have r: "readEntry z (''ppt/slides/slide'' @ N @ ''.xml'') = Inr content"
    using assms(3) by (simp add: readEntry_def)
  show "slideStep z fullText (''ppt/slides/slide'' @ N @ ''.xml'') =
     Inr (fullText
          @ (if matchRuns content = [] then []
             else ''--- Slide '' @ N @ '' ---'' @ [newline]
                    @ join '' '' (map stripTags (matchRuns content)) @ [newline])
          @ (case notesPart of
               None \<Rightarrow> []
             | Some notesContent \<Rightarrow>
                 if matchRuns notesContent = [] then []
                 else ''[Slide '' @ N @ '' Notes: ''
                        @ join '' '' (map stripTags (matchRuns notesContent)) @ '']'' @ [newline]))"
    unfolding slideStep_def n r Let_def using assms(4)
    by (cases notesPart) simp_all
next
  show "\<forall>m \<in> set (matchRuns content)
              \<union> (case notesPart of None \<Rightarrow> {} | Some notesContent \<Rightarrow> set (matchRuns notesContent)).
         \<exists>body. m = ''<a:t>'' @ body @ ''</a:t>'' \<and> CHR ''<'' \<notin> set body \<and> stripTags m = body"
    using matchRuns_shape by (cases notesPart) auto
next
  show "\<forall>pre body post.
         content = pre @ ''<a:t>'' @ body @ ''</a:t>'' @ post \<and> CHR ''<'' \<notin> set body \<longrightarrow>
         matchRuns content = matchRuns pre @ (''<a:t>'' @ body @ ''</a:t>'') # matchRuns post"
    using matchRuns_run by blast
next
  have "(''ppt/slides/slide'' @ N @ ''.xml'', Inr content) \<in> set z"
    using assms(3) by (rule map_of_SomeD)
  then have "''ppt/slides/slide'' @ N @ ''.xml'' \<in> set (map fst z)" by force
  moreover have "startsWith (''ppt/slides/slide'' @ N @ ''.xml'') ''ppt/slides/slide''"
    by (simp add: startsWith_def)
  moreover have "endsWith (''ppt/slides/slide'' @ N @ ''.xml'') ''.xml''"
    unfolding endsWith_def by (rule suffixI [of _ "''ppt/slides/slide'' @ N"]) simp
  ultimately show "''ppt/slides/slide'' @ N @ ''.xml'' \<in> set (slideFiles z)"
    by (simp add: slideFiles_def)
next
  show "loadAsync file = Inr z \<and> (\<forall>f \<in> set (slideFiles z). isl (slideStep z [] f) = False) \<longrightarrow>
         extractPptxText file = Inr (concat (map (slideBlock z) (slideFiles z)))"
    using slidesLoop_blocks [of "slideFiles z" z "[]"] by (simp add: extractPptxText_def)
qed

lemma matchRuns_sample:
  "matchRuns ''<a:p><a:r><a:t>Intro</a:t></a:r><a:r><a:t>duction</a:t></a:r></a:p>'' =
     [''<a:t>Intro</a:t>'', ''<a:t>duction</a:t>'']"
  "matchRuns ''<a:p><a:r><a:t>remember X</a:t></a:r></a:p>'' = [''<a:t>remember X</a:t>'']"
  "matchRuns ''<p:sld><p:pic/></p:sld>'' = []"
  by (simp_all add: runAt_def startsWith_def Let_def)

lemma stripTags_sample:
  "stripTags ''<a:t>Intro</a:t>'' = ''Intro''"
  "stripTags ''<a:t>duction</a:t>'' = ''duction''"
  "stripTags ''<a:t>remember X</a:t>'' = ''remember X''"
  by (simp_all add: startsWith_def)

text \<open>
  Slide 1 with the runs Intro and duction and a notes part with the run remember X:
  the marker, the two texts joined by a space, and the notes line.
\<close>

theorem C2_slide_block_witness:
  "slideStep
     [(''ppt/slides/slide1.xml'',
         Inr ''<a:p><a:r><a:t>Intro</a:t></a:r><a:r><a:t>duction</a:t></a:r></a:p>''),
      (''ppt/notesSlides/notesSlide1.xml'',
         Inr ''<a:p><a:r><a:t>remember X</a:t></a:r></a:p>'')]
     [] ''ppt/slides/slide1.xml'' =
   Inr (''--- Slide 1 ---'' @ [newline] @ ''Intro duction'' @ [newline]
        @ ''[Slide 1 Notes: remember X]'' @ [newline])"
proof -
  let ?z = "[(''ppt/slides/slide1.xml'',
         Inr ''<a:p><a:r><a:t>Intro</a:t></a:r><a:r><a:t>duction</a:t></a:r></a:p>''),
      (''ppt/notesSlides/notesSlide1.xml'',
         Inr ''<a:p><a:r><a:t>remember X</a:t></a:r></a:p>'')] :: zip_files"
  have 1: "''1'' \<noteq> []" by simp
  have 2: "\<forall>c \<in> set ''1''. isDigit c" by (simp add: isDigit_def)
  have 3: "map_of ?z (''ppt/slides/slide'' @ ''1'' @ ''.xml'') =
      Some (Inr ''<a:p><a:r><a:t>Intro</a:t></a:r><a:r><a:t>duction</a:t></a:r></a:p>'')"
    by simp
  have 4: "map_of ?z (''ppt/notesSlides/notesSlide'' @ ''1'' @ ''.xml'') =
      map_option Inr (Some ''<a:p><a:r><a:t>remember X</a:t></a:r></a:p>'')"
    by simp
  show ?thesis
    using C2_slide_block [OF 1 2 3 4, of "[]"]
    by (simp add: matchRuns_sample stripTags_sample del: matchRuns.simps stripTags.simps)
qed

text \<open>
  The claim as stated fails on a slide without text runs (a slide with a picture
  only): the text of the presentation is empty and holds no marker for slide 1.
\<close>

theorem C2_counterexample:
  "extractPptxText
     (samplePptx ''deck.pptx'' ''application/octet-stream''
        [(''ppt/slides/slide1.xml'', Inr ''<p:sld><p:pic/></p:sld>'')]) = Inr []"
proof -
  have n: "slideNumOf ''ppt/slides/slide1.xml'' = ''1''"
    using slideNumOf_slide [of "''1''"] by (simp add: isDigit_def)
  show ?thesis
    by (simp add: extractPptxText_def samplePptx_def sampleFile_def slideFiles_def
          startsWith_def endsWith_def suffix_to_prefix slideStep_def n readEntry_def
          matchRuns_sample Let_def del: matchRuns.simps)
qed

section \<open>Ingestion Coordinator\<close>

text \<open>The step on any records and state is the step of the file on its own, added to them.\<close>

lemma fileStep_alone:
  "fileStep file (newFiles, a) =
     (case fileAlone file of
        None \<Rightarrow> None
      | Some (new, m) \<Rightarrow>
          Some (newFiles @ new, case m of None \<Rightarrow> a | Some t \<Rightarrow> a\<lparr>error := Some t\<rparr>))"
  by (cases "readAsDataURL file"; cases "extractPdfText file"; cases "extractPptxText file")
     (simp_all add: fileAlone_def fileStep_def setError_def)



lemma extractPdfText_sample:
  "extractPdfText (samplePdf n t [Inr [fragment ''Alpha'' 72 700 30]]) =
     Inr (''--- Page 1 ---'' @ [newline] @ ''Alpha'' @ [newline] @ [newline, newline])"
  "extractPdfText (samplePdf n t [Inl (Error ''Invalid page request'')]) =
     Inl (Error ''Failed to extract text from PDF. The file might be corrupted or complex.'')"
proof -
  show "extractPdfText (samplePdf n t [Inr [fragment ''Alpha'' 72 700 30]]) =
     Inr (''--- Page 1 ---'' @ [newline] @ ''Alpha'' @ [newline] @ [newline, newline])"
    using pagesLoop_all [of 1 "[[fragment ''Alpha'' 72 700 30]]" "[]"]
    by (simp add: extractPdfText_def samplePdf_def sampleFile_def pageBlock_def
          numberToString_sample pageText_word)
  show "extractPdfText (samplePdf n t [Inl (Error ''Invalid page request'')]) =
     Inl (Error ''Failed to extract text from PDF. The file might be corrupted or complex.'')"
    by (simp add: extractPdfText_def samplePdf_def sampleFile_def pagesLoop.simps [of _ "Suc 0"])
qed

lemma sample_fields:
  "file_name (samplePdf n t pages) = n" "file_type (samplePdf n t pages) = t"
  "file_size (samplePdf n t pages) = 1000"
  "file_name (sampleImage n t sz url) = n" "file_type (sampleImage n t sz url) = t"
  "file_size (sampleImage n t sz url) = sz" "readAsDataURL (sampleImage n t sz url) = Some url"
  "file_name (samplePptx n t z) = n" "file_type (samplePptx n t z) = t"
  "file_size (samplePptx n t z) = 1000" "loadAsync (samplePptx n t z) = Inr z"
  "file_name (sampleFile n t sz) = n" "file_type (sampleFile n t sz) = t"
  "file_size (sampleFile n t sz) = sz"
  by (simp_all add: samplePdf_def sampleImage_def samplePptx_def sampleFile_def)

lemma toLowerCase_sample:
  "toLowerCase ''one.pdf'' = ''one.pdf''" "toLowerCase ''two.pdf'' = ''two.pdf''"
  "toLowerCase ''Report.PDF'' = ''report.pdf''" "toLowerCase ''Talk.PPTX'' = ''talk.pptx''"
  "toLowerCase ''notes.txt'' = ''notes.txt''" "toLowerCase ''locked.pdf'' = ''locked.pdf''"
  by code_simp+

lemma fileAlone_sample:
  "fileAlone (samplePdf ''one.pdf'' ''application/pdf'' [Inr [fragment ''Alpha'' 72 700 30]]) =
     Some ([\<lparr>name = ''one.pdf'', type = ''application/pdf'',
              data = ''--- Page 1 ---'' @ [newline] @ ''Alpha'' @ [newline] @ [newline, newline],
              preview = None\<rparr>], None)"
  "fileAlone (samplePdf ''two.pdf'' ''application/pdf'' [Inl (Error ''Invalid page request'')]) =
     Some ([], Some ''Failed to extract text from PDF. The file might be corrupted or complex.'')"
  "fileAlone (sampleImage ''fig.png'' ''image/png'' 2048 ''data:image/png;base64,iVBORw0KGgo='') =
     Some ([\<lparr>name = ''fig.png'', type = ''image/png'',
              data = ''data:image/png;base64,iVBORw0KGgo='',
              preview = Some ''data:image/png;base64,iVBORw0KGgo=''\<rparr>], None)"
  by (simp_all add: fileAlone_def fileStep_def setError_def sample_fields MAX_FILE_SIZE_def
        startsWith_def endsWith_def suffix_to_prefix extractPdfText_sample)



lemma extract_size_irrelevant:
  "extractPdfText (file\<lparr>file_size := n\<rparr>) = extractPdfText file"
  "extractPptxText (file\<lparr>file_size := n\<rparr>) = extractPptxText file"
  by (simp_all add: extractPdfText_def extractPptxText_def)

text \<open>
  C8. The limit is 50 * 1024 * 1024 bytes. A file whose size is strictly greater is
  rejected: the step sets the size-limit message, which names the file, adds no
  record, and the loop goes on with the rest of the batch. A file whose size is not
  greater, so one of exactly 50 MiB too, passes the size check: the step does what it
  does for the same file with size 0.
\<close>

theorem C8_size_limit:
  "MAX_FILE_SIZE = 50 * 1024 * 1024 \<and>
   (file_size file > MAX_FILE_SIZE \<longrightarrow>
      fileStep file (newFiles, a) =
        Some (newFiles, a\<lparr>error := Some (''File '' @ [dquote] @ file_name file @ [dquote]
                                            @ '' exceeds the 50MB limit.'')\<rparr>)
      \<and> filesLoop (file # rest) (newFiles, a) =
          filesLoop rest (newFiles, a\<lparr>error := Some (''File '' @ [dquote] @ file_name file @ [dquote]
                                            @ '' exceeds the 50MB limit.'')\<rparr>)) \<and>
   (file_size file \<le> MAX_FILE_SIZE \<longrightarrow>
      fileStep file (newFiles, a) = fileStep (file\<lparr>file_size := 0\<rparr>) (newFiles, a))"
proof (intro conjI impI)
  show "MAX_FILE_SIZE = 50 * 1024 * 1024" by (simp add: MAX_FILE_SIZE_def)
next
  assume "file_size file > MAX_FILE_SIZE"
  then show "fileStep file (newFiles, a) =
        Some (newFiles, a\<lparr>error := Some (''File '' @ [dquote] @ file_name file @ [dquote]
                                            @ '' exceeds the 50MB limit.'')\<rparr>)"
    by (simp add: fileStep_def setError_def)
  then show "filesLoop (file # rest) (newFiles, a) =
          filesLoop rest (newFiles, a\<lparr>error := Some (''File '' @ [dquote] @ file_name file @ [dquote]
                                            @ '' exceeds the 50MB limit.'')\<rparr>)"
    by simp
next
  assume "file_size file \<le> MAX_FILE_SIZE"
  then show "fileStep file (newFiles, a) = fileStep (file\<lparr>file_size := 0\<rparr>) (newFiles, a)"
    by (simp add: fileStep_def extract_size_irrelevant
          cong: option.case_cong sum.case_cong if_cong)
qed

text \<open>
  An image of 50 MiB and one byte is rejected with the message naming it and the loop
  goes on to the next file; an image of exactly 50 MiB gives its record.
\<close>

theorem C8_size_limit_witness:
  "filesLoop
     [sampleImage ''big.png'' ''image/png'' 52428801 ''data:image/png;base64,AAAA'',
      sampleImage ''fit.png'' ''image/png'' 52428800 ''data:image/png;base64,BBBB'']
     ([], emptyApp) =
   Some ([\<lparr>name = ''fit.png'', type = ''image/png'', data = ''data:image/png;base64,BBBB'',
           preview = Some ''data:image/png;base64,BBBB''\<rparr>],
         emptyApp\<lparr>error := Some (''File '' @ [dquote] @ ''big.png'' @ [dquote]
                                    @ '' exceeds the 50MB limit.'')\<rparr>)"
proof -
  let ?big = "sampleImage ''big.png'' ''image/png'' 52428801 ''data:image/png;base64,AAAA''"
  let ?fit = "sampleImage ''fit.png'' ''image/png'' 52428800 ''data:image/png;base64,BBBB''"
  let ?a = "emptyApp\<lparr>error := Some (''File '' @ [dquote] @ ''big.png'' @ [dquote]
                                    @ '' exceeds the 50MB limit.'')\<rparr>"
  have big: "file_size ?big > MAX_FILE_SIZE" by (simp add: sample_fields MAX_FILE_SIZE_def)
  have fit: "file_size ?fit \<le> MAX_FILE_SIZE" by (simp add: sample_fields MAX_FILE_SIZE_def)
  have "filesLoop [?big, ?fit] ([], emptyApp) = filesLoop [?fit] ([], ?a)"
    using C8_size_limit [of ?big "[]" emptyApp "[?fit]"] big by (simp add: sample_fields)
  moreover have "fileStep ?fit ([], ?a) = fileStep (?fit\<lparr>file_size := 0\<rparr>) ([], ?a)"
    using C8_size_limit [of ?fit "[]" ?a] fit by blast
  moreover have "fileStep (?fit\<lparr>file_size := 0\<rparr>) ([], ?a) =
     Some ([\<lparr>name = ''fit.png'', type = ''image/png'', data = ''data:image/png;base64,BBBB'',
           preview = Some ''data:image/png;base64,BBBB''\<rparr>], ?a)"
    by (simp add: fileStep_def sampleImage_def sampleFile_def startsWith_def)
  ultimately show ?thesis by simp
qed

lemma fileStep_record_ok:
  "fileStep f (newFiles, a) = Some (newFiles', a') \<Longrightarrow>
   \<exists>new. newFiles' = newFiles @ new \<and> (\<forall>u \<in> set new. record_ok [f] u)"
  by (auto simp: fileStep_def record_ok_def startsWith_def split: if_splits option.splits sum.splits)

lemma record_ok_mono: "record_ok fs u \<Longrightarrow> set fs \<subseteq> set gs \<Longrightarrow> record_ok gs u"
  by (auto simp: record_ok_def)

lemma filesLoop_record_ok:
  "filesLoop fs (newFiles, a) = Some (newFiles', a') \<Longrightarrow>
   \<exists>new. newFiles' = newFiles @ new \<and> (\<forall>u \<in> set new. record_ok fs u)"
proof (induction fs arbitrary: newFiles a)
  case Nil
  then show ?case by simp
next
  case (Cons f fs)
  from Cons.prems obtain nf1 a1 where s: "fileStep f (newFiles, a) = Some (nf1, a1)"
    and l: "filesLoop fs (nf1, a1) = Some (newFiles', a')"
    by (auto split: option.splits)
  from fileStep_record_ok [OF s]
  obtain n1 where n1: "nf1 = newFiles @ n1" "\<forall>u \<in> set n1. record_ok [f] u"
    by blast
  from Cons.IH [OF l]
  obtain n2 where n2: "newFiles' = nf1 @ n2" "\<forall>u \<in> set n2. record_ok fs u"
    by blast
  have "\<forall>u \<in> set (n1 @ n2). record_ok (f # fs) u"
    using n1(2) n2(2) by (auto intro: record_ok_mono)
  then show ?case using n1(1) n2(1) by auto
qed

lemma filesLoop_files:
  "filesLoop fs (newFiles, a) = Some (newFiles', a') \<Longrightarrow> files a' = files a"
proof (induction fs arbitrary: newFiles a)
  case Nil
  then show ?case by simp
next
  case (Cons f fs)
  from Cons.prems obtain nf1 a1 where s: "fileStep f (newFiles, a) = Some (nf1, a1)"
    and l: "filesLoop fs (nf1, a1) = Some (newFiles', a')"
    by (auto split: option.splits)
  from s have "files a1 = files a"
    by (auto simp: fileStep_def setError_def split: if_splits option.splits sum.splits)
  then show ?case using Cons.IH [OF l] by simp
qed

text \<open>
  C9. When the handler completes, the files of the component are the earlier ones
  followed by the records of this batch, and for every record of this batch: its
  preview is set if and only if its type begins with \<^verbatim>\<open>image/\<close>; and when the type
  begins with \<^verbatim>\<open>image/\<close>, preview and data are the same string, the data URL read
  from a file of the batch whose name and declared type the record carries.
\<close>

theorem C9_preview_iff_image:
  "handleFileChange a selectedFiles = Some a' \<Longrightarrow>
   \<exists>new. files a' = files a @ new \<and>
     (\<forall>u \<in> set new.
        (preview u \<noteq> None \<longleftrightarrow> startsWith (type u) ''image/'') \<and>
        (startsWith (type u) ''image/'' \<longrightarrow>
           preview u = Some (data u) \<and>
           (\<exists>f \<in> set selectedFiles.
              readAsDataURL f = Some (data u) \<and> name u = file_name f \<and> type u = file_type f)))"
proof -
  assume h: "handleFileChange a selectedFiles = Some a'"
  then obtain nf a1 where l: "filesLoop selectedFiles ([], setError None a) = Some (nf, a1)"
    and a': "a' = a1\<lparr>files := files a1 @ nf\<rparr>"
    by (auto simp: handleFileChange_def split: option.splits)
  from filesLoop_record_ok [OF l] have ok: "\<forall>u \<in> set nf. record_ok selectedFiles u" by simp
  from filesLoop_files [OF l] have "files a1 = files a" by (simp add: setError_def)
  then have "files a' = files a @ nf" using a' by simp
  then show ?thesis using ok unfolding record_ok_def by blast
qed

lemma handleFileChange_sample:
  "handleFileChange emptyApp
     [sampleImage ''fig.png'' ''image/png'' 2048 ''data:image/png;base64,iVBORw0KGgo='',
      samplePdf ''one.pdf'' ''application/pdf'' [Inr [fragment ''Alpha'' 72 700 30]]] =
   Some \<lparr>files =
           [\<lparr>name = ''fig.png'', type = ''image/png'',
              data = ''data:image/png;base64,iVBORw0KGgo='',
              preview = Some ''data:image/png;base64,iVBORw0KGgo=''\<rparr>,
            \<lparr>name = ''one.pdf'', type = ''application/pdf'',
              data = ''--- Page 1 ---'' @ [newline] @ ''Alpha'' @ [newline] @ [newline, newline],
              preview = None\<rparr>],
         error = None\<rparr>"
  by (simp add: handleFileChange_def fileStep_alone fileAlone_sample setError_def emptyApp_def)

text \<open>
  A batch of an image and a PDF, on which the handler completes: the statement holds
  of the state it returns.
\<close>

theorem C9_preview_iff_image_witness:
  "\<exists>new.
     files \<lparr>files =
           [\<lparr>name = ''fig.png'', type = ''image/png'',
              data = ''data:image/png;base64,iVBORw0KGgo='',
              preview = Some ''data:image/png;base64,iVBORw0KGgo=''\<rparr>,
            \<lparr>name = ''one.pdf'', type = ''application/pdf'',
              data = ''--- Page 1 ---'' @ [newline] @ ''Alpha'' @ [newline] @ [newline, newline],
              preview = None\<rparr>],
         error = None\<rparr> = files emptyApp @ new \<and>
     (\<forall>u \<in> set new.
        (preview u \<noteq> None \<longleftrightarrow> startsWith (type u) ''image/'') \<and>
        (startsWith (type u) ''image/'' \<longrightarrow>
           preview u = Some (data u) \<and>
           (\<exists>f \<in> set [sampleImage ''fig.png'' ''image/png'' 2048 ''data:image/png;base64,iVBORw0KGgo='',
                        samplePdf ''one.pdf'' ''application/pdf'' [Inr [fragment ''Alpha'' 72 700 30]]].
              readAsDataURL f = Some (data u) \<and> name u = file_name f \<and> type u = file_type f)))"
  by (rule C9_preview_iff_image [OF handleFileChange_sample])

text \<open>
  C10. For a file within the size limit whose declared type does not begin with
  \<^verbatim>\<open>image/\<close>: when its name ends with \<^verbatim>\<open>.pdf\<close> in any letter case or its declared type
  is \<^verbatim>\<open>application/pdf\<close>, and the PDF extractor returns a text, the record has the type
  \<^verbatim>\<open>application/pdf\<close>; when it is not such a file and its name ends with \<^verbatim>\<open>.pptx\<close> in
  any letter case, and the presentation extractor returns a text, the record has the
  type of presentations. In both cases the type of the record is the constant,
  whatever type the file declares.
\<close>

theorem C10_document_type:
  "file_size file \<le> MAX_FILE_SIZE \<Longrightarrow> \<not> startsWith (file_type file) ''image/'' \<Longrightarrow>
   (endsWith (toLowerCase (file_name file)) ''.pdf'' \<or> file_type file = ''application/pdf'' \<longrightarrow>
      (\<forall>text. extractPdfText file = Inr text \<longrightarrow>
         fileStep file (newFiles, a) =
           Some (newFiles @ [\<lparr>name = file_name file, type = ''application/pdf'',
                              data = text, preview = None\<rparr>], a))) \<and>
   (\<not> (endsWith (toLowerCase (file_name file)) ''.pdf'' \<or> file_type file = ''application/pdf'')
      \<and> endsWith (toLowerCase (file_name file)) ''.pptx'' \<longrightarrow>
      (\<forall>text. extractPptxText file = Inr text \<longrightarrow>
         fileStep file (newFiles, a) =
           Some (newFiles @ [\<lparr>name = file_name file,
             type = ''application/vnd.openxmlformats-officedocument.presentationml.presentation'',
             data = text, preview = None\<rparr>], a)))"
  by (simp add: fileStep_def)

text \<open>
  A PDF named in capitals that declares \<^verbatim>\<open>text/plain\<close> and a presentation named in
  capitals that declares \<^verbatim>\<open>application/zip\<close>: the records carry the two constants.
\<close>

theorem C10_document_type_witness:
  "fileStep (samplePdf ''Report.PDF'' ''text/plain'' [Inr [fragment ''Alpha'' 72 700 30]])
     ([], emptyApp) =
     Some ([\<lparr>name = ''Report.PDF'', type = ''application/pdf'',
             data = ''--- Page 1 ---'' @ [newline] @ ''Alpha'' @ [newline] @ [newline, newline],
             preview = None\<rparr>], emptyApp) \<and>
   fileStep (samplePptx ''Talk.PPTX'' ''application/zip'' []) ([], emptyApp) =
     Some ([\<lparr>name = ''Talk.PPTX'',
             type = ''application/vnd.openxmlformats-officedocument.presentationml.presentation'',
             data = [], preview = None\<rparr>], emptyApp)"
proof (intro conjI)
  let ?f = "samplePdf ''Report.PDF'' ''text/plain'' [Inr [fragment ''Alpha'' 72 700 30]]"
  have 1: "file_size ?f \<le> MAX_FILE_SIZE" by (simp add: sample_fields MAX_FILE_SIZE_def)
  have 2: "\<not> startsWith (file_type ?f) ''image/''" by (simp add: sample_fields startsWith_def)
  have 3: "endsWith (toLowerCase (file_name ?f)) ''.pdf'' \<or> file_type ?f = ''application/pdf''"
    by (simp add: sample_fields toLowerCase_sample endsWith_def suffix_to_prefix)
  show "fileStep ?f ([], emptyApp) =
     Some ([\<lparr>name = ''Report.PDF'', type = ''application/pdf'',
             data = ''--- Page 1 ---'' @ [newline] @ ''Alpha'' @ [newline] @ [newline, newline],
             preview = None\<rparr>], emptyApp)"
    using C10_document_type [OF 1 2, of "[]" emptyApp] 3 extractPdfText_sample(1) [of "''Report.PDF''" "''text/plain''"]
    by (simp add: sample_fields)
next
  let ?f = "samplePptx ''Talk.PPTX'' ''application/zip'' []"
  have 1: "file_size ?f \<le> MAX_FILE_SIZE" by (simp add: sample_fields MAX_FILE_SIZE_def)
  have 2: "\<not> startsWith (file_type ?f) ''image/''" by (simp add: sample_fields startsWith_def)
  have 3: "\<not> (endsWith (toLowerCase (file_name ?f)) ''.pdf'' \<or> file_type ?f = ''application/pdf'')
      \<and> endsWith (toLowerCase (file_name ?f)) ''.pptx''"
    by (simp add: sample_fields toLowerCase_sample endsWith_def suffix_to_prefix)
  have 4: "extractPptxText ?f = Inr []"
    by (simp add: extractPptxText_def sample_fields slideFiles_def)
  show "fileStep ?f ([], emptyApp) =
     Some ([\<lparr>name = ''Talk.PPTX'',
             type = ''application/vnd.openxmlformats-officedocument.presentationml.presentation'',
             data = [], preview = None\<rparr>], emptyApp)"
    using C10_document_type [OF 1 2, of "[]" emptyApp] 3 4
    by (simp add: sample_fields)
qed

end
